theory Spec2Isabelle
  imports Main
begin

section \<open>UnLua class descriptors (ClassDesc.cpp)\<close>

text \<open>
  A shallow embedding of \<^verbatim>\<open>FClassDesc\<close> from
  \<^verbatim>\<open>Plugins/UnLua/Source/UnLua/Private/ReflectionUtils/ClassDesc.cpp\<close>.

  Pointers are natural numbers.  The engine's reflection objects (\<^verbatim>\<open>UStruct\<close>,
  \<^verbatim>\<open>FProperty\<close>, \<^verbatim>\<open>UFunction\<close>) are owned by the engine; everything the
  code asks of them is a field of the record \<open>host\<close>, a parameter of every operation.
  The descriptors themselves live in two heaps of the record \<open>world\<close>: a heap is a
  list of optional objects, the address of an object is its index, \<^verbatim>\<open>new\<close> appends
  and \<^verbatim>\<open>delete\<close> overwrites the cell with \<open>None\<close>.

  The host is one value for the whole of a call: \<^verbatim>\<open>LoadObject\<close>, which may load a
  package, only answers here.  Strings are lists of characters and are compared as they
  are; the engine compares an \<^verbatim>\<open>FName\<close> or an \<^verbatim>\<open>FString\<close> without regard to case, so
  a name stands for its one spelling in the name table.  The destructor (lines 67-75) is
  left out: it is the registry that destroys a descriptor.
\<close>

subsection \<open>Handles\<close>

type_synonym struct_ref = nat  \<comment> \<open>\<^verbatim>\<open>UStruct*\<close>\<close>
type_synonym prop_ref = nat  \<comment> \<open>\<^verbatim>\<open>FProperty*\<close>\<close>
type_synonym func_ref = nat  \<comment> \<open>\<^verbatim>\<open>UFunction*\<close>\<close>
type_synonym object_ref = nat  \<comment> \<open>the owner of a member, before \<^verbatim>\<open>Cast<UStruct>\<close>\<close>
type_synonym collection_ref = nat  \<comment> \<open>\<^verbatim>\<open>FFunctionCollection*\<close>\<close>
type_synonym params_ref = nat  \<comment> \<open>\<^verbatim>\<open>FParameterCollection*\<close>\<close>
type_synonym desc_ref = nat  \<comment> \<open>\<^verbatim>\<open>FClassDesc*\<close>\<close>
type_synonym field_ref = nat  \<comment> \<open>\<^verbatim>\<open>FFieldDesc*\<close>\<close>
type_synonym fname = string  \<comment> \<open>\<^verbatim>\<open>FName\<close>, in the canonical spelling of the name table\<close>

subsection \<open>The host type system\<close>

text \<open>
  What the engine answers.  None of these functions is code of ClassDesc.cpp, so none is
  given a body: a theorem holds for every host, or states what it needs of the host as
  a hypothesis.  \<open>PropertyIt\<close> is the sequence a
  \<^verbatim>\<open>TFieldIterator<FProperty>(Struct, ExcludeSuper, ExcludeDeprecated)\<close> runs through.
  \<open>GetCppStructOps\<close> gives the alignment and the size of the native operations, when
  the struct has them.
\<close>

record host =
  IsA_UScriptStruct :: "struct_ref \<Rightarrow> bool"
  IsA_UClass :: "struct_ref \<Rightarrow> bool"
  HasClassFlag_Interface :: "struct_ref \<Rightarrow> bool"
  UInterface_StaticClass :: struct_ref
  IsNative :: "struct_ref \<Rightarrow> bool"
  GetStructureSize :: "struct_ref \<Rightarrow> int"
  GetMinAlignment :: "struct_ref \<Rightarrow> int"
  GetCppStructOps :: "struct_ref \<Rightarrow> (int \<times> int) option"
  CalcUserdataPadding :: "int \<Rightarrow> nat"
  Interfaces :: "struct_ref \<Rightarrow> struct_ref list"
  GetInheritanceSuper :: "struct_ref \<Rightarrow> struct_ref option"
  GetMetatableName :: "struct_ref \<Rightarrow> string"
  GDefaultParamCollection_Find :: "string \<Rightarrow> collection_ref option"
  FunctionCollection_Find :: "collection_ref \<Rightarrow> fname \<Rightarrow> params_ref option"
  FindPropertyByName :: "struct_ref \<Rightarrow> fname \<Rightarrow> prop_ref option"
  FindFunctionByName :: "struct_ref \<Rightarrow> fname \<Rightarrow> func_ref option"
  PropertyIt :: "struct_ref \<Rightarrow> prop_ref list"
  GetName :: "prop_ref \<Rightarrow> string"
  GetPropertyOuter :: "prop_ref \<Rightarrow> object_ref"
  GetOuter :: "func_ref \<Rightarrow> object_ref"
  Cast_UStruct :: "object_ref \<Rightarrow> struct_ref option"
  FindObject :: "string \<Rightarrow> struct_ref option"
  LoadObject :: "string \<Rightarrow> struct_ref option"

subsection \<open>Descriptors\<close>

text \<open>
  The two factories \<^verbatim>\<open>FPropertyDesc::Create\<close> and \<^verbatim>\<open>new FFunctionDesc\<close> are
  opaque: a descriptor they return is known by the arguments of the call that made it.
\<close>

datatype FPropertyDesc = FPropertyDesc_Create prop_ref

datatype FFunctionDesc = FFunctionDesc_new func_ref "params_ref option"

datatype factory_call =
  Call_FPropertyDesc_Create prop_ref
| Call_FFunctionDesc_new func_ref "params_ref option"

text \<open>
  \<open>FieldIndex\<close> is an \<^verbatim>\<open>int32\<close>.  It is one more than an index \<^verbatim>\<open>TArray::Add\<close>
  has returned, or the negation of that; a \<^verbatim>\<open>TArray\<close> holds fewer than \<open>2^31\<close>
  elements, so neither step can overflow and the field is an \<open>int\<close>.
\<close>

record FFieldDesc =
  QueryClass :: desc_ref
  OuterClass :: desc_ref
  FieldIndex :: int

text \<open>
  \<open>Fields\<close> is a \<^verbatim>\<open>TMap<FName, FFieldDesc*>\<close>, kept as an association list in order of
  insertion; \<^verbatim>\<open>Find\<close> is \<open>map_of\<close>.  \<open>Struct = None\<close> is the null pointer of an unloaded
  descriptor.
\<close>

record FClassDesc =
  Struct :: "struct_ref option"
  ClassName :: string
  bIsScriptStruct :: bool
  bIsClass :: bool
  bIsInterface :: bool
  bIsNative :: bool
  UserdataPadding :: nat
  Size :: int
  RefCount :: int
  FunctionCollection :: "collection_ref option"
  SuperClasses :: "desc_ref list"
  Fields :: "(fname \<times> field_ref) list"
  Properties :: "FPropertyDesc list"
  Functions :: "FFunctionDesc list"

text \<open>
  \<open>Classes\<close> is the table of \<^verbatim>\<open>UnLua::FClassRegistry\<close>; \<open>FactoryLog\<close> records the
  calls of the two factories in the order they are made.
\<close>

record world =
  Classes :: "struct_ref \<Rightarrow> desc_ref option"
  Descs :: "FClassDesc option list"
  FieldDescs :: "FFieldDesc option list"
  FactoryLog :: "factory_call list"

datatype error =
  CheckFailed  \<comment> \<open>a \<^verbatim>\<open>check(...)\<close> that does not hold\<close>
| IndexOutOfBounds  \<comment> \<open>\<^verbatim>\<open>ClassName[0]\<close> of an empty string\<close>
| NullPointer  \<comment> \<open>a member function entered through a pointer that holds no object\<close>

definition deref :: "'a option list \<Rightarrow> nat \<Rightarrow> 'a option" where
  "deref H a = (if a < length H then H ! a else None)"

definition desc :: "world \<Rightarrow> desc_ref \<Rightarrow> FClassDesc option" where
  "desc w d = deref (Descs w) d"

definition field :: "world \<Rightarrow> field_ref \<Rightarrow> FFieldDesc option" where
  "field w a = deref (FieldDescs w) a"

definition put_desc :: "world \<Rightarrow> desc_ref \<Rightarrow> FClassDesc \<Rightarrow> world" where
  "put_desc w d c = w\<lparr>Descs := (Descs w)[d := Some c]\<rparr>"

subsection \<open>FString operations the code uses\<close>

text \<open>
  \<^verbatim>\<open>LeftChop(n)\<close> drops \<open>n\<close> characters at the end, \<^verbatim>\<open>RightChop(n)\<close> drops \<open>n\<close> at
  the front, \<^verbatim>\<open>Mid(0, n)\<close> keeps the first \<open>n\<close>, and \<^verbatim>\<open>FindLastChar\<close> gives the index
  of the last occurrence of a character (here \<open>None\<close> for \<^verbatim>\<open>INDEX_NONE\<close>).
\<close>

definition LeftChop :: "string \<Rightarrow> nat \<Rightarrow> string" where
  "LeftChop s n = take (length s - n) s"

definition RightChop :: "string \<Rightarrow> nat \<Rightarrow> string" where
  "RightChop s n = drop n s"

definition Mid :: "string \<Rightarrow> nat \<Rightarrow> nat \<Rightarrow> string" where
  "Mid s start n = take n (drop start s)"

fun FindLastChar :: "char \<Rightarrow> string \<Rightarrow> nat option" where
  "FindLastChar c [] = None"
| "FindLastChar c (x # xs) =
     (case FindLastChar c xs of
        Some i \<Rightarrow> Some (Suc i)
      | None \<Rightarrow> if x = c then Some 0 else None)"

subsection \<open>Load, UnLoad, FindField, GetInheritanceChain, AddRef, SubRef\<close>

text \<open>Lines 185-196, on the descriptor alone.\<close>

definition Load_desc :: "host \<Rightarrow> FClassDesc \<Rightarrow> error + FClassDesc" where
  "Load_desc h c =
     (if Struct c \<noteq> None then Inr c
      else if ClassName c = [] then Inl IndexOutOfBounds
      else
        let Name = (if hd (ClassName c) = CHR ''U'' \<or> hd (ClassName c) = CHR ''A''
                       \<or> hd (ClassName c) = CHR ''F''
                    then RightChop (ClassName c) 1 else ClassName c);
            found = (case FindObject h Name of Some s \<Rightarrow> Some s | None \<Rightarrow> LoadObject h Name)
        in case found of
             None \<Rightarrow> Inl CheckFailed
           | Some s \<Rightarrow> Inr (c\<lparr>Struct := Some s\<rparr>))"

definition Load :: "host \<Rightarrow> world \<Rightarrow> desc_ref \<Rightarrow> error + world" where
  "Load h w this =
     (case desc w this of
        None \<Rightarrow> Inl NullPointer
      | Some c \<Rightarrow>
          (case Load_desc h c of
             Inl e \<Rightarrow> Inl e
           | Inr c' \<Rightarrow> Inr (put_desc w this c')))"

text \<open>
  Lines 198-215.  \<open>delete_fields\<close> is the first loop, which deletes the field
  descriptors \<open>Fields\<close> points to.  The property and function descriptors are the
  elements of their sequences here, so they go when the sequences are emptied.
\<close>

definition delete_fields :: "field_ref list \<Rightarrow> FFieldDesc option list \<Rightarrow> FFieldDesc option list" where
  "delete_fields as H = fold (\<lambda>a H'. H'[a := None]) as H"

definition UnLoad :: "world \<Rightarrow> desc_ref \<Rightarrow> error + world" where
  "UnLoad w this =
     (case desc w this of
        None \<Rightarrow> Inl NullPointer
      | Some c \<Rightarrow>
          if Struct c = None then Inr w
          else Inr (put_desc (w\<lparr>FieldDescs := delete_fields (map snd (Fields c)) (FieldDescs w)\<rparr>)
                      this
                      (c\<lparr>Fields := [], Properties := [], Functions := [], Struct := None\<rparr>)))"

text \<open>Lines 87-93.\<close>

definition FindField :: "host \<Rightarrow> world \<Rightarrow> desc_ref \<Rightarrow> fname \<Rightarrow> error + world \<times> field_ref option" where
  "FindField h w this FieldName =
     (case Load h w this of
        Inl e \<Rightarrow> Inl e
      | Inr w1 \<Rightarrow>
          (case desc w1 this of
             None \<Rightarrow> Inl NullPointer
           | Some c \<Rightarrow> Inr (w1, map_of (Fields c) FieldName)))"

text \<open>Lines 179-183: the caller's array, then \<^verbatim>\<open>this\<close>, then \<open>SuperClasses\<close>.\<close>

definition GetInheritanceChain :: "world \<Rightarrow> desc_ref \<Rightarrow> desc_ref list \<Rightarrow> error + desc_ref list" where
  "GetInheritanceChain w this DescChain =
     (case desc w this of
        None \<Rightarrow> Inl NullPointer
      | Some c \<Rightarrow> Inr ((DescChain @ [this]) @ SuperClasses c))"

text \<open>Lines 77-85.  The counter is not read by any other function of the file.\<close>

definition AddRef :: "world \<Rightarrow> desc_ref \<Rightarrow> error + world" where
  "AddRef w this =
     (case desc w this of
        None \<Rightarrow> Inl NullPointer
      | Some c \<Rightarrow> Inr (put_desc w this (c\<lparr>RefCount := RefCount c + 1\<rparr>)))"

definition SubRef :: "world \<Rightarrow> desc_ref \<Rightarrow> error + world" where
  "SubRef w this =
     (case desc w this of
        None \<Rightarrow> Inl NullPointer
      | Some c \<Rightarrow> Inr (put_desc w this (c\<lparr>RefCount := RefCount c - 1\<rparr>)))"

subsection \<open>The constructor and the class registry\<close>

text \<open>
  The constructor is lines 27-65.  \<open>FClassDesc_init\<close> is what it computes from the type
  alone, the member initialisers and lines 30-55 without the calls of the registry,
  given the array \<open>SuperClasses\<close>.
\<close>

definition FClassDesc_init :: "host \<Rightarrow> struct_ref \<Rightarrow> string \<Rightarrow> desc_ref list \<Rightarrow> FClassDesc" where
  "FClassDesc_init h InStruct InName supers =
     (let isScriptStruct = IsA_UScriptStruct h InStruct;
          isClass = IsA_UClass h InStruct
      in \<lparr>Struct = Some InStruct,
          ClassName = InName,
          bIsScriptStruct = isScriptStruct,
          bIsClass = isClass,
          bIsInterface = (isClass \<and> HasClassFlag_Interface h InStruct
                          \<and> InStruct \<noteq> UInterface_StaticClass h),
          bIsNative = IsNative h InStruct,
          UserdataPadding =
            (if isClass then 0
             else if isScriptStruct then
               CalcUserdataPadding h
                 (case GetCppStructOps h InStruct of
                    Some (al, sz) \<Rightarrow> al
                  | None \<Rightarrow> GetMinAlignment h InStruct)
             else 0),
          Size =
            (if isClass then GetStructureSize h InStruct
             else if isScriptStruct then
               (case GetCppStructOps h InStruct of
                  Some (al, sz) \<Rightarrow> sz
                | None \<Rightarrow> GetStructureSize h InStruct)
             else 0),
          RefCount = 0,
          FunctionCollection =
            (if isClass then GDefaultParamCollection_Find h InName else None),
          SuperClasses = supers,
          Fields = [],
          Properties = [],
          Functions = []\<rparr>)"

text \<open>
  Modelled from the spec: \<^verbatim>\<open>UnLua::FClassRegistry::RegisterReflectedType\<close>, which
  ClassDesc.cpp calls and does not define.  The spec gives it as
  \<^verbatim>\<open>ResolveOrCreate(typeHandle)\<close>: it returns the descriptor already registered
  for the type, and otherwise constructs one, registers it and returns it; it never
  returns null.  The name of a new descriptor is the type's metatable name.

  The other three functions are the constructor's own code.  \<open>FClassDesc_ctor\<close> makes
  the calls of the registry, for each implemented interface (lines 41-44,
  \<open>RegisterInterfaces\<close>) and then for each ancestor (lines 57-64, \<open>RegisterSupers\<close>, the
  \<^verbatim>\<open>while (SuperStruct)\<close> loop with the array \<open>SuperClasses\<close> built so far; the
  metatable name line 60 computes is never read).  The registry constructs, so the
  four functions are mutually recursive.  Nothing in the code bounds the walk up
  \<^verbatim>\<open>GetInheritanceSuper\<close> or the nesting of constructions, so every function takes
  fuel, and \<open>None\<close> is a run that has not returned.
\<close>

fun RegisterReflectedType :: "nat \<Rightarrow> host \<Rightarrow> world \<Rightarrow> struct_ref \<Rightarrow> (world \<times> desc_ref) option"
  and FClassDesc_ctor :: "nat \<Rightarrow> host \<Rightarrow> world \<Rightarrow> struct_ref \<Rightarrow> string \<Rightarrow> (world \<times> FClassDesc) option"
  and RegisterInterfaces :: "nat \<Rightarrow> host \<Rightarrow> world \<Rightarrow> struct_ref list \<Rightarrow> world option"
  and RegisterSupers :: "nat \<Rightarrow> host \<Rightarrow> world \<Rightarrow> struct_ref option \<Rightarrow> desc_ref list \<Rightarrow> (world \<times> desc_ref list) option"
where
  "RegisterReflectedType 0 h w T = None"
| "RegisterReflectedType (Suc k) h w T =
     (case Classes w T of
        Some d \<Rightarrow> Some (w, d)
      | None \<Rightarrow>
          (case FClassDesc_ctor k h w T (GetMetatableName h T) of
             None \<Rightarrow> None
           | Some (w', c) \<Rightarrow>
               Some (w'\<lparr>Classes := (Classes w')(T \<mapsto> length (Descs w')),
                        Descs := Descs w' @ [Some c]\<rparr>,
                     length (Descs w'))))"
| "FClassDesc_ctor k h w InStruct InName =
     (case (if IsA_UClass h InStruct then RegisterInterfaces k h w (Interfaces h InStruct)
            else Some w) of
        None \<Rightarrow> None
      | Some w1 \<Rightarrow>
          (case RegisterSupers k h w1 (GetInheritanceSuper h InStruct) [] of
             None \<Rightarrow> None
           | Some (w2, supers) \<Rightarrow> Some (w2, FClassDesc_init h InStruct InName supers)))"
| "RegisterInterfaces k h w [] = Some w"
| "RegisterInterfaces k h w (i # is) =
     (case RegisterReflectedType k h w i of
        None \<Rightarrow> None
      | Some (w', d) \<Rightarrow> RegisterInterfaces k h w' is)"
| "RegisterSupers k h w None acc = Some (w, acc)"
| "RegisterSupers 0 h w (Some s) acc = None"
| "RegisterSupers (Suc k) h w (Some s) acc =
     (case RegisterReflectedType k h w s of
        None \<Rightarrow> None
      | Some (w', d) \<Rightarrow> RegisterSupers k h w' (GetInheritanceSuper h s) (acc @ [d]))"

subsection \<open>RegisterField\<close>

text \<open>
  Lines 116-130: the display name recovered from a property's name.
\<close>

definition GuidStrLen :: nat where
  "GuidStrLen = 32"

definition MinimalPostfixlen :: nat where
  "MinimalPostfixlen = GuidStrLen + 3"

definition RecoverDisplayName :: "string \<Rightarrow> string" where
  "RecoverDisplayName PropName =
     (if length PropName > MinimalPostfixlen then
        (let DisplayName = LeftChop PropName (GuidStrLen + 1)
         in case FindLastChar CHR ''_'' DisplayName of
              Some FirstCharToRemove \<Rightarrow> Mid DisplayName 0 FirstCharToRemove
            | None \<Rightarrow> DisplayName)
      else PropName)"

text \<open>Lines 119-137: the loop stops at the first property whose display name is the field's.\<close>

fun RecoverProperty :: "host \<Rightarrow> fname \<Rightarrow> prop_ref list \<Rightarrow> prop_ref option" where
  "RecoverProperty h FieldName [] = None"
| "RecoverProperty h FieldName (p # ps) =
     (if RecoverDisplayName (GetName h p) = FieldName then Some p
      else RecoverProperty h FieldName ps)"

text \<open>Lines 111-140: the pair of \<^verbatim>\<open>Property\<close> and \<^verbatim>\<open>Function\<close> (here \<open>P\<close> and \<open>F\<close>) when line 141 is reached.\<close>

definition FindMember :: "host \<Rightarrow> FClassDesc \<Rightarrow> struct_ref \<Rightarrow> fname \<Rightarrow> prop_ref option \<times> func_ref option" where
  "FindMember h c S FieldName =
     (let P = FindPropertyByName h S FieldName;
          F = (if P = None \<and> bIsClass c then FindFunctionByName h S FieldName else None);
          bValid = (P \<noteq> None \<or> F \<noteq> None)
      in if \<not> bValid \<and> bIsScriptStruct c \<and> \<not> IsNative h S
         then (RecoverProperty h FieldName (PropertyIt h S), F)
         else (P, F))"

text \<open>Line 146.\<close>

definition OuterStructOf :: "host \<Rightarrow> prop_ref option \<Rightarrow> func_ref option \<Rightarrow> struct_ref option" where
  "OuterStructOf h P F =
     (case P of
        Some p \<Rightarrow> Cast_UStruct h (GetPropertyOuter h p)
      | None \<Rightarrow>
          (case F of
             Some f \<Rightarrow> Cast_UStruct h (GetOuter h f)
           | None \<Rightarrow> None))"

text \<open>\<^verbatim>\<open>TMap::Add\<close>: the value of a key that is present is replaced, a new key goes last.\<close>

fun TMap_Add :: "'k \<Rightarrow> 'v \<Rightarrow> ('k \<times> 'v) list \<Rightarrow> ('k \<times> 'v) list" where
  "TMap_Add k v [] = [(k, v)]"
| "TMap_Add k v ((k', v') # m) =
     (if k' = k then (k, v) # m else (k', v') # TMap_Add k v m)"

text \<open>
  Lines 156-173, for the descriptor \<open>c\<close> read at \<open>this\<close>: the new field descriptor, the
  entry of \<open>Fields\<close>, the factory call and the index.  \<open>Inl CheckFailed\<close> is
  \<^verbatim>\<open>check(Function)\<close> on line 168.
\<close>

definition RegisterLocal ::
  "host \<Rightarrow> world \<Rightarrow> desc_ref \<Rightarrow> FClassDesc \<Rightarrow> fname \<Rightarrow> desc_ref \<Rightarrow> prop_ref option \<Rightarrow> func_ref option
     \<Rightarrow> error + world \<times> field_ref option" where
  "RegisterLocal h w this c FieldName QC P F =
     (let FieldDesc = length (FieldDescs w);
          fields = TMap_Add FieldName FieldDesc (Fields c)
      in case P of
           Some p \<Rightarrow>
             Inr (put_desc
                    (w\<lparr>FieldDescs := FieldDescs w @
                          [Some \<lparr>QueryClass = QC, OuterClass = this,
                                 FieldIndex = int (length (Properties c)) + 1\<rparr>],
                       FactoryLog := FactoryLog w @ [Call_FPropertyDesc_Create p]\<rparr>)
                    this
                    (c\<lparr>Fields := fields,
                       Properties := Properties c @ [FPropertyDesc_Create p]\<rparr>),
                  Some FieldDesc)
         | None \<Rightarrow>
             (case F of
                None \<Rightarrow> Inl CheckFailed
              | Some f \<Rightarrow>
                  (let DefaultParams =
                         (case FunctionCollection c of
                            Some fc \<Rightarrow> FunctionCollection_Find h fc FieldName
                          | None \<Rightarrow> None)
                   in Inr (put_desc
                             (w\<lparr>FieldDescs := FieldDescs w @
                                   [Some \<lparr>QueryClass = QC, OuterClass = this,
                                          FieldIndex = - (int (length (Functions c)) + 1)\<rparr>],
                                FactoryLog := FactoryLog w @ [Call_FFunctionDesc_new f DefaultParams]\<rparr>)
                             this
                             (c\<lparr>Fields := fields,
                                Functions := Functions c @ [FFunctionDesc_new f DefaultParams]\<rparr>),
                           Some FieldDesc))))"

text \<open>
  Lines 98-177.  The call through \<^verbatim>\<open>OuterClass\<close> on line 153 is a recursion the code
  does not bound, so \<open>RegisterField\<close> takes fuel as the registry does: \<open>None\<close> is a run
  that has not returned, \<open>Some (Inl e)\<close> a fatal stop, and \<open>Some (Inr (w', r))\<close> the
  return of \<open>r\<close> (\<open>None\<close> for \<^verbatim>\<open>nullptr\<close>) in the world \<open>w'\<close>.  The registry
  always returns a pointer, so \<^verbatim>\<open>check(OuterClass)\<close> on line 152 has no branch; and
  \<open>Struct\<close> is set when \<open>Load\<close> has returned, so the branch for a null \<open>Struct\<close> is
  there only to make the function total.
\<close>

fun RegisterField ::
  "nat \<Rightarrow> host \<Rightarrow> world \<Rightarrow> desc_ref \<Rightarrow> fname \<Rightarrow> desc_ref \<Rightarrow> (error + world \<times> field_ref option) option" where
  "RegisterField 0 h w this FieldName QC = None"
| "RegisterField (Suc k) h w this FieldName QC =
     (case Load h w this of
        Inl e \<Rightarrow> Some (Inl e)
      | Inr w1 \<Rightarrow>
          (case desc w1 this of
             None \<Rightarrow> Some (Inl NullPointer)
           | Some c \<Rightarrow>
               (case map_of (Fields c) FieldName of
                  Some FieldDesc \<Rightarrow> Some (Inr (w1, Some FieldDesc))
                | None \<Rightarrow>
                    (case Struct c of
                       None \<Rightarrow> Some (Inl NullPointer)
                     | Some S \<Rightarrow>
                         (let found = FindMember h c S FieldName;
                              P = fst found;
                              F = snd found
                          in if P = None \<and> F = None then Some (Inr (w1, None))
                             else
                               (case OuterStructOf h P F of
                                  None \<Rightarrow> Some (Inr (w1, None))
                                | Some OuterStruct \<Rightarrow>
                                    if OuterStruct \<noteq> S then
                                      (case RegisterReflectedType k h w1 OuterStruct of
                                         None \<Rightarrow> None
                                       | Some (w2, Outer) \<Rightarrow>
                                           RegisterField k h w2 Outer FieldName QC)
                                    else Some (RegisterLocal h w1 this c FieldName QC P F)))))))"

subsection \<open>Relations between worlds\<close>

text \<open>
  \<open>fresh_desc c\<close>: a descriptor as the constructor leaves it, loaded and without fields.

  \<open>extends w w'\<close>: \<open>w'\<close> has the descriptors and the registrations of \<open>w\<close>, unchanged,
  and possibly more descriptors after them, all fresh; no field descriptor was made or
  deleted and no factory was called.

  \<open>kept c c'\<close>: \<open>c'\<close> is \<open>c\<close> but for \<open>Struct\<close>, \<open>Fields\<close>, \<open>Properties\<close> and
  \<open>Functions\<close>; a type that was loaded is still the same, and every entry of \<open>Fields\<close>
  is still there.

  \<open>effect n r w w'\<close>: what a call for the name \<open>n\<close> that returns \<open>r\<close> may have done
  between \<open>w\<close> and \<open>w'\<close>.

  \<open>supers_of\<close> reads \<open>SuperClasses\<close> through a pointer, and \<open>unloaded w this c\<close> is the
  world \<open>UnLoad\<close> leaves when \<open>this\<close> holds the loaded descriptor \<open>c\<close>.
\<close>

definition fresh_desc :: "FClassDesc \<Rightarrow> bool" where
  "fresh_desc c \<longleftrightarrow> Struct c \<noteq> None \<and> Fields c = [] \<and> Properties c = [] \<and> Functions c = []"

definition extends :: "world \<Rightarrow> world \<Rightarrow> bool" where
  "extends w w' \<longleftrightarrow>
     (\<exists>new. Descs w' = Descs w @ map Some new \<and> (\<forall>c \<in> set new. fresh_desc c))
     \<and> (\<forall>T d. Classes w T = Some d \<longrightarrow> Classes w' T = Some d)
     \<and> FieldDescs w' = FieldDescs w
     \<and> FactoryLog w' = FactoryLog w"

definition kept :: "FClassDesc \<Rightarrow> FClassDesc \<Rightarrow> bool" where
  "kept c c' \<longleftrightarrow>
     ClassName c' = ClassName c \<and> bIsScriptStruct c' = bIsScriptStruct c
     \<and> bIsClass c' = bIsClass c \<and> bIsInterface c' = bIsInterface c
     \<and> bIsNative c' = bIsNative c \<and> UserdataPadding c' = UserdataPadding c
     \<and> Size c' = Size c \<and> RefCount c' = RefCount c
     \<and> FunctionCollection c' = FunctionCollection c \<and> SuperClasses c' = SuperClasses c
     \<and> (Struct c \<noteq> None \<longrightarrow> Struct c' = Struct c)
     \<and> (\<forall>m x. map_of (Fields c) m = Some x \<longrightarrow> map_of (Fields c') m = Some x)"

definition effect :: "fname \<Rightarrow> field_ref option \<Rightarrow> world \<Rightarrow> world \<Rightarrow> bool" where
  "effect n r w w' \<longleftrightarrow>
     (\<forall>T d. Classes w T = Some d \<longrightarrow> Classes w' T = Some d)
     \<and> (\<forall>d c. desc w d = Some c \<longrightarrow>
           (\<exists>c'. desc w' d = Some c' \<and> kept c c'
              \<and> (r = None \<longrightarrow> Fields c' = Fields c \<and> Properties c' = Properties c
                                \<and> Functions c' = Functions c)
              \<and> (\<forall>x. map_of (Fields c) n = None \<longrightarrow> map_of (Fields c') n = Some x \<longrightarrow> r = Some x)))
     \<and> (r = None \<longrightarrow>
           FieldDescs w' = FieldDescs w \<and> FactoryLog w' = FactoryLog w
           \<and> (\<forall>d c'. desc w d = None \<longrightarrow> desc w' d = Some c' \<longrightarrow> fresh_desc c'))"

definition supers_of :: "world \<Rightarrow> desc_ref \<Rightarrow> desc_ref list option" where
  "supers_of w d = map_option SuperClasses (desc w d)"

definition unloaded :: "world \<Rightarrow> desc_ref \<Rightarrow> FClassDesc \<Rightarrow> world" where
  "unloaded w this c =
     put_desc (w\<lparr>FieldDescs := delete_fields (map snd (Fields c)) (FieldDescs w)\<rparr>) this
       (c\<lparr>Fields := [], Properties := [], Functions := [], Struct := None\<rparr>)"

subsection \<open>Worlds the code can reach\<close>

text \<open>
  \<open>declared_here h c S n i\<close>: on a descriptor \<open>c\<close> of the type \<open>S\<close>, the name \<open>n\<close> is
  the name of a member that \<open>S\<close> itself owns, and \<open>i\<close> is the index of the descriptor
  made from that member, positive into \<open>Properties\<close> for a property and negative into
  \<open>Functions\<close> for a function.

  \<open>fields_declared_here h w\<close>: every entry of every \<open>Fields\<close> points to a live field
  descriptor whose \<open>OuterClass\<close> is the descriptor holding the entry, and is for a
  member declared on that descriptor's own type.

  \<open>reachable h w\<close>: \<open>w\<close> is the empty world, or comes from a reachable world by a call
  that has returned, of the registry or of a public member function of a descriptor.
\<close>

definition declared_here :: "host \<Rightarrow> FClassDesc \<Rightarrow> struct_ref \<Rightarrow> fname \<Rightarrow> int \<Rightarrow> bool" where
  "declared_here h c S n i \<longleftrightarrow>
     (case FindMember h c S n of
        (Some p, F) \<Rightarrow>
          0 < i \<and> nat (i - 1) < length (Properties c)
          \<and> Properties c ! nat (i - 1) = FPropertyDesc_Create p
          \<and> Cast_UStruct h (GetPropertyOuter h p) = Some S
      | (None, Some f) \<Rightarrow>
          i < 0 \<and> nat (- i - 1) < length (Functions c)
          \<and> (\<exists>dp. Functions c ! nat (- i - 1) = FFunctionDesc_new f dp)
          \<and> Cast_UStruct h (GetOuter h f) = Some S
      | (None, None) \<Rightarrow> False)"

definition fields_declared_here :: "host \<Rightarrow> world \<Rightarrow> bool" where
  "fields_declared_here h w \<longleftrightarrow>
     (\<forall>d c n fr. desc w d = Some c \<longrightarrow> (n, fr) \<in> set (Fields c) \<longrightarrow>
        (\<exists>fd S. field w fr = Some fd \<and> OuterClass fd = d \<and> Struct c = Some S
           \<and> declared_here h c S n (FieldIndex fd)))"

definition world0 :: world where
  "world0 = \<lparr>Classes = (\<lambda>s. None), Descs = [], FieldDescs = [], FactoryLog = []\<rparr>"

inductive reachable :: "host \<Rightarrow> world \<Rightarrow> bool" for h :: host where
  start: "reachable h world0"
| by_RegisterReflectedType:
    "reachable h w \<Longrightarrow> RegisterReflectedType k h w T = Some (w', d) \<Longrightarrow> reachable h w'"
| by_RegisterField:
    "reachable h w \<Longrightarrow> RegisterField k h w this n q = Some (Inr (w', r)) \<Longrightarrow> reachable h w'"
| by_FindField:
    "reachable h w \<Longrightarrow> FindField h w this n = Inr (w', r) \<Longrightarrow> reachable h w'"
| by_Load:
    "reachable h w \<Longrightarrow> Load h w this = Inr w' \<Longrightarrow> reachable h w'"
| by_UnLoad:
    "reachable h w \<Longrightarrow> UnLoad w this = Inr w' \<Longrightarrow> reachable h w'"
| by_AddRef:
    "reachable h w \<Longrightarrow> AddRef w this = Inr w' \<Longrightarrow> reachable h w'"
| by_SubRef:
    "reachable h w \<Longrightarrow> SubRef w this = Inr w' \<Longrightarrow> reachable h w'"

subsection \<open>A host and worlds to run the code on\<close>

text \<open>
  Three native classes \<open>1\<close>, \<open>2\<close>, \<open>3\<close> (named \<^verbatim>\<open>UA\<close>, \<^verbatim>\<open>UB\<close>, \<^verbatim>\<open>UC\<close>) with
  \<open>3\<close> derived from \<open>2\<close> and \<open>2\<close> from \<open>1\<close>; class \<open>1\<close> declares the property \<open>100\<close>
  (\<^verbatim>\<open>Hp\<close>) and the function \<open>200\<close> (\<^verbatim>\<open>Jump\<close>), which its descendants inherit.  The
  struct \<open>10\<close> (\<^verbatim>\<open>FStats\<close>) is a script struct that is not native, with the one
  property \<open>101\<close>.
\<close>

definition host0 :: host where
  "host0 =
     \<lparr>IsA_UScriptStruct = (\<lambda>s. s = 10),
      IsA_UClass = (\<lambda>s. s = 1 \<or> s = 2 \<or> s = 3),
      HasClassFlag_Interface = (\<lambda>s. False),
      UInterface_StaticClass = 0,
      IsNative = (\<lambda>s. s \<noteq> 10),
      GetStructureSize = (\<lambda>s. 8),
      GetMinAlignment = (\<lambda>s. 4),
      GetCppStructOps = (\<lambda>s. None),
      CalcUserdataPadding = (\<lambda>a. 0),
      Interfaces = (\<lambda>s. []),
      GetInheritanceSuper = (\<lambda>s. if s = 3 then Some 2 else if s = 2 then Some 1 else None),
      GetMetatableName = (\<lambda>s. if s = 1 then ''UA'' else if s = 2 then ''UB''
                               else if s = 3 then ''UC'' else ''FStats''),
      GDefaultParamCollection_Find = (\<lambda>n. None),
      FunctionCollection_Find = (\<lambda>c n. None),
      FindPropertyByName = (\<lambda>s n. if n = ''Hp'' \<and> (s = 1 \<or> s = 2 \<or> s = 3) then Some 100
                                 else if n = ''Health_01234567890123456789012345678901_3'' \<and> s = 10
                                 then Some 101 else None),
      FindFunctionByName = (\<lambda>s n. if n = ''Jump'' \<and> (s = 1 \<or> s = 2 \<or> s = 3) then Some 200 else None),
      PropertyIt = (\<lambda>s. if s = 10 then [101] else if s = 1 then [100] else []),
      GetName = (\<lambda>p. if p = 101 then ''Health_01234567890123456789012345678901_3'' else ''Hp''),
      GetPropertyOuter = (\<lambda>p. if p = 101 then 10 else 1),
      GetOuter = (\<lambda>f. 1),
      Cast_UStruct = (\<lambda>ob. Some ob),
      FindObject = (\<lambda>n. if n = ''A'' then Some 1 else if n = ''B'' then Some 2
                         else if n = ''C'' then Some 3 else if n = ''Stats'' then Some 10 else None),
      LoadObject = (\<lambda>n. None)\<rparr>"

definition worldC :: world where
  "worldC =
     \<lparr>Classes = [1 \<mapsto> 0, 2 \<mapsto> 1, 3 \<mapsto> 2],
      Descs = [Some (FClassDesc_init host0 1 ''UA'' []),
               Some (FClassDesc_init host0 2 ''UB'' [0]),
               Some (FClassDesc_init host0 3 ''UC'' [1, 0])],
      FieldDescs = [],
      FactoryLog = []\<rparr>"

definition worldHp :: world where
  "worldHp =
     \<lparr>Classes = [1 \<mapsto> 0, 2 \<mapsto> 1, 3 \<mapsto> 2],
      Descs = [Some ((FClassDesc_init host0 1 ''UA'' [])
                       \<lparr>Fields := [(''Hp'', 0)], Properties := [FPropertyDesc_Create 100]\<rparr>),
               Some (FClassDesc_init host0 2 ''UB'' [0]),
               Some (FClassDesc_init host0 3 ''UC'' [1, 0])],
      FieldDescs = [Some \<lparr>QueryClass = 2, OuterClass = 0, FieldIndex = 1\<rparr>],
      FactoryLog = [Call_FPropertyDesc_Create 100]\<rparr>"

definition worldS :: world where
  "worldS =
     \<lparr>Classes = [10 \<mapsto> 0],
      Descs = [Some (FClassDesc_init host0 10 ''FStats'' [])],
      FieldDescs = [],
      FactoryLog = []\<rparr>"

definition worldHpA :: world where
  "worldHpA =
     \<lparr>Classes = [1 \<mapsto> 0, 2 \<mapsto> 1, 3 \<mapsto> 2],
      Descs = [Some ((FClassDesc_init host0 1 ''UA'' [])
                       \<lparr>Fields := [(''Hp'', 0)], Properties := [FPropertyDesc_Create 100]\<rparr>),
               Some (FClassDesc_init host0 2 ''UB'' [0]),
               Some (FClassDesc_init host0 3 ''UC'' [1, 0])],
      FieldDescs = [Some \<lparr>QueryClass = 0, OuterClass = 0, FieldIndex = 1\<rparr>],
      FactoryLog = [Call_FPropertyDesc_Create 100]\<rparr>"

section \<open>Properties\<close>

subsection \<open>Heaps and Load\<close>

lemma deref_update: "deref (H[a := x]) b = (if b = a \<and> a < length H then x else deref H b)"
  by (simp add: deref_def)

lemma deref_append: "deref (H @ [x]) b = (if b = length H then x else deref H b)"
  by (simp add: deref_def nth_append)

lemma deref_Some_less: "deref H a = Some x \<Longrightarrow> a < length H"
  by (simp add: deref_def split: if_splits)

lemma desc_put_desc:
  "desc (put_desc w d c) d' = (if d' = d \<and> d < length (Descs w) then Some c else desc w d')"
  by (simp add: desc_def put_desc_def deref_update)

lemma put_desc_same:
  assumes "desc w d = Some c"
  shows "put_desc w d c = w"
proof -
  from assms have "d < length (Descs w)" "Descs w ! d = Some c"
    by (simp_all add: desc_def deref_def split: if_splits)
  then have "(Descs w)[d := Some c] = Descs w"
    by (simp add: list_update_same_conv)
  then show ?thesis by (simp add: put_desc_def)
qed

lemma put_desc_frame [simp]:
  "Classes (put_desc w d c) = Classes w"
  "FieldDescs (put_desc w d c) = FieldDescs w"
  "FactoryLog (put_desc w d c) = FactoryLog w"
  "length (Descs (put_desc w d c)) = length (Descs w)"
  "field (put_desc w d c) a = field w a"
  by (simp_all add: put_desc_def field_def)

lemma Load_desc_loaded: "Struct c \<noteq> None \<Longrightarrow> Load_desc h c = Inr c"
  by (simp add: Load_desc_def)

lemma Load_desc_cases:
  assumes "Load_desc h c = Inr c'"
  obtains (loaded) "Struct c \<noteq> None" "c' = c"
  | (found) s where "Struct c = None" "c' = c\<lparr>Struct := Some s\<rparr>"
  using assms by (auto simp: Load_desc_def Let_def split: if_splits option.splits)

lemma Load_desc_Inr:
  assumes "Load_desc h c = Inr c'"
  shows "Struct c' \<noteq> None \<and> (Struct c \<noteq> None \<longrightarrow> c' = c)"
  using assms by (cases rule: Load_desc_cases) simp_all

lemma Load_desc_keeps:
  assumes "Load_desc h c = Inr c'"
  shows "Fields c' = Fields c" "Properties c' = Properties c" "Functions c' = Functions c"
    "SuperClasses c' = SuperClasses c"
  using assms by (cases rule: Load_desc_cases; simp)+

lemma desc_Some_less: "desc w d = Some c \<Longrightarrow> d < length (Descs w)"
  by (simp add: desc_def deref_Some_less)

lemma Load_InrD:
  assumes "Load h w this = Inr w1"
  obtains c c' where "desc w this = Some c" "Load_desc h c = Inr c'" "w1 = put_desc w this c'"
    "desc w1 this = Some c'"
proof -
  from assms obtain c where c: "desc w this = Some c"
    by (auto simp: Load_def split: option.splits)
  with assms obtain c' where c': "Load_desc h c = Inr c'" "w1 = put_desc w this c'"
    by (auto simp: Load_def split: sum.splits)
  have "desc w1 this = Some c'"
    using c c' by (simp add: desc_put_desc desc_Some_less)
  with c c' show thesis by (rule that)
qed

lemma Load_loaded: "desc w this = Some c \<Longrightarrow> Struct c \<noteq> None \<Longrightarrow> Load h w this = Inr w"
  by (simp add: Load_def Load_desc_loaded put_desc_same)

subsection \<open>The registry only extends the world\<close>

lemma extends_refl: "extends w w"
  by (auto simp: extends_def intro: exI[of _ "[]"])

lemma extends_trans:
  assumes "extends w w1" "extends w1 w2"
  shows "extends w w2"
proof -
  from assms(1) obtain n1 where n1: "Descs w1 = Descs w @ map Some n1" "\<forall>c \<in> set n1. fresh_desc c"
    by (auto simp: extends_def)
  from assms(2) obtain n2 where n2: "Descs w2 = Descs w1 @ map Some n2" "\<forall>c \<in> set n2. fresh_desc c"
    by (auto simp: extends_def)
  have "Descs w2 = Descs w @ map Some (n1 @ n2)" "\<forall>c \<in> set (n1 @ n2). fresh_desc c"
    using n1 n2 by auto
  then have "\<exists>new. Descs w2 = Descs w @ map Some new \<and> (\<forall>c \<in> set new. fresh_desc c)"
    by blast
  with assms show ?thesis by (simp add: extends_def)
qed

lemma extends_desc: "extends w w' \<Longrightarrow> desc w d = Some c \<Longrightarrow> desc w' d = Some c"
  by (auto simp: extends_def desc_def deref_def nth_append split: if_splits)

lemma extends_new:
  assumes "extends w w'" "desc w d = None" "desc w' d = Some c'"
  shows "fresh_desc c'"
proof -
  from assms(1) obtain new where n: "Descs w' = Descs w @ map Some new" "\<forall>c \<in> set new. fresh_desc c"
    by (auto simp: extends_def)
  from assms(2,3) have "length (Descs w) \<le> d" "d < length (Descs w')"
    "Descs w' ! d = Some c'"
    by (auto simp: desc_def deref_def n nth_append split: if_splits)
  then have "c' \<in> set new"
    by (simp add: n nth_append) (metis (no_types) add_diff_inverse_nat nat_add_left_cancel_less not_le nth_mem)
  with n(2) show ?thesis by blast
qed

lemma fresh_desc_init: "fresh_desc (FClassDesc_init h T nm supers)"
  by (simp add: fresh_desc_def FClassDesc_init_def Let_def)

lemma extends_register:
  assumes "extends w w1" "Classes w T = None" "fresh_desc c"
  shows "extends w (w1\<lparr>Classes := (Classes w1)(T \<mapsto> d), Descs := Descs w1 @ [Some c]\<rparr>)"
proof -
  from assms(1) obtain new where n: "Descs w1 = Descs w @ map Some new" "\<forall>c \<in> set new. fresh_desc c"
    by (auto simp: extends_def)
  have "Descs w1 @ [Some c] = Descs w @ map Some (new @ [c])" "\<forall>x \<in> set (new @ [c]). fresh_desc x"
    using n assms(3) by simp_all
  then have "\<exists>new'. Descs w1 @ [Some c] = Descs w @ map Some new' \<and> (\<forall>x \<in> set new'. fresh_desc x)"
    by blast
  with assms(1,2) show ?thesis
    by (auto simp: extends_def)
qed

lemma registry_extends:
  "RegisterReflectedType k h w T = Some (w', d) \<Longrightarrow> extends w w' \<and> Classes w' T = Some d"
  "FClassDesc_ctor k h w T nm = Some (w', c) \<Longrightarrow> extends w w'"
  "RegisterInterfaces k h w is = Some w' \<Longrightarrow> extends w w'"
  "RegisterSupers k h w s acc = Some (w', r) \<Longrightarrow> extends w w'"
proof (induction k h w T and k h w T nm and k h w "is" and k h w s acc
    arbitrary: w' d and w' c and w' and w' r
    rule: RegisterReflectedType_FClassDesc_ctor_RegisterInterfaces_RegisterSupers.induct)
  case (1 h w T)
  then show ?case by simp
next
  case (2 k h w T)
  show ?case
  proof (cases "Classes w T")
    case (Some d0)
    with 2(2) show ?thesis by (simp add: extends_refl)
  next
    case None
    with 2(2) obtain w1 c where
      ct: "FClassDesc_ctor k h w T (GetMetatableName h T) = Some (w1, c)"
      and w': "w' = w1\<lparr>Classes := (Classes w1)(T \<mapsto> length (Descs w1)), Descs := Descs w1 @ [Some c]\<rparr>"
      and d: "d = length (Descs w1)"
      by (auto split: option.splits)
    from 2(1)[OF None ct] have e: "extends w w1" .
    have "fresh_desc c"
      using ct by (auto simp: fresh_desc_init split: option.splits)
    with e None have "extends w w'"
      unfolding w' by (rule extends_register)
    then show ?thesis using w' d by simp
  qed
next
  case (3 k h w InStruct InName)
  from 3(3) obtain w1 supers where
    i: "(if IsA_UClass h InStruct then RegisterInterfaces k h w (Interfaces h InStruct) else Some w) = Some w1"
    and s: "RegisterSupers k h w1 (GetInheritanceSuper h InStruct) [] = Some (w', supers)"
    by (auto split: option.splits)
  have e1: "extends w w1"
  proof (cases "IsA_UClass h InStruct")
    case True
    with i 3(1) show ?thesis by simp
  next
    case False
    with i show ?thesis by (simp add: extends_refl)
  qed
  from 3(2)[OF i s] have "extends w1 w'" .
  with e1 show ?case by (rule extends_trans)
next
  case (4 k h w)
  then show ?case by (simp add: extends_refl)
next
  case (5 k h w i "is")
  from 5(3) obtain w1 d1 where
    r: "RegisterReflectedType k h w i = Some (w1, d1)"
    and rest: "RegisterInterfaces k h w1 is = Some w'"
    by (auto split: option.splits)
  from 5(1)[OF r] have "extends w w1" by simp
  moreover from 5(2)[OF r refl rest] have "extends w1 w'" .
  ultimately show ?case by (rule extends_trans)
next
  case (6 k h w acc)
  then show ?case by (simp add: extends_refl)
next
  case (7 h w s acc)
  then show ?case by simp
next
  case (8 k h w s acc)
  from 8(3) obtain w1 d1 where
    r: "RegisterReflectedType k h w s = Some (w1, d1)"
    and rest: "RegisterSupers k h w1 (GetInheritanceSuper h s) (acc @ [d1]) = Some (w', r)"
    by (auto split: option.splits)
  from 8(1)[OF r] have "extends w w1" by simp
  moreover from 8(2)[OF r refl rest] have "extends w1 w'" .
  ultimately show ?case by (rule extends_trans)
qed

subsection \<open>The four ways RegisterField returns\<close>

lemma RegisterField_SucE:
  assumes "RegisterField (Suc k) h w this n q = Some (Inr (w', r))"
  obtains
    (cached) w1 c fr where
      "Load h w this = Inr w1" "desc w1 this = Some c" "map_of (Fields c) n = Some fr"
      "w' = w1" "r = Some fr"
  | (absent) w1 c S where
      "Load h w this = Inr w1" "desc w1 this = Some c" "map_of (Fields c) n = None"
      "Struct c = Some S"
      "FindMember h c S n = (None, None)
       \<or> OuterStructOf h (fst (FindMember h c S n)) (snd (FindMember h c S n)) = None"
      "w' = w1" "r = None"
  | (redirect) w1 c S Outer w2 a where
      "Load h w this = Inr w1" "desc w1 this = Some c" "map_of (Fields c) n = None"
      "Struct c = Some S" "FindMember h c S n \<noteq> (None, None)"
      "OuterStructOf h (fst (FindMember h c S n)) (snd (FindMember h c S n)) = Some Outer"
      "Outer \<noteq> S"
      "RegisterReflectedType k h w1 Outer = Some (w2, a)"
      "RegisterField k h w2 a n q = Some (Inr (w', r))"
  | (local) w1 c S where
      "Load h w this = Inr w1" "desc w1 this = Some c" "map_of (Fields c) n = None"
      "Struct c = Some S" "FindMember h c S n \<noteq> (None, None)"
      "OuterStructOf h (fst (FindMember h c S n)) (snd (FindMember h c S n)) = Some S"
      "RegisterLocal h w1 this c n q (fst (FindMember h c S n)) (snd (FindMember h c S n)) = Inr (w', r)"
proof -
  from assms obtain w1 where l: "Load h w this = Inr w1"
    by (auto split: sum.splits)
  with assms obtain c where c: "desc w1 this = Some c"
    by (auto split: option.splits)
  show thesis
  proof (cases "map_of (Fields c) n")
    case (Some fr)
    with assms l c show thesis by (intro cached[of w1 c fr]) auto
  next
    case None
    with assms l c obtain S where S: "Struct c = Some S"
      by (auto split: option.splits)
    let ?m = "FindMember h c S n"
    show thesis
    proof (cases "?m = (None, None)")
      case True
      with assms l c None S show thesis by (intro absent[of w1 c S]) auto
    next
      case False
      then have nn: "\<not> (fst ?m = None \<and> snd ?m = None)"
        by (metis prod.collapse)
      show thesis
      proof (cases "OuterStructOf h (fst ?m) (snd ?m)")
        case None2: None
        with assms l c None S nn show thesis
          by (intro absent[of w1 c S]) (auto simp: Let_def)
      next
        case (Some Outer)
        show thesis
        proof (cases "Outer = S")
          case True
          with assms l c None S nn Some False show thesis
            by (intro local[of w1 c S]) (auto simp: Let_def)
        next
          case ne: False
          with assms l c None S nn Some obtain w2 a where
            "RegisterReflectedType k h w1 Outer = Some (w2, a)"
            "RegisterField k h w2 a n q = Some (Inr (w', r))"
            by (auto simp: Let_def split: option.splits)
          with l c None S False Some ne show thesis
            by (intro redirect[of w1 c S Outer w2 a]) auto
        qed
      qed
    qed
  qed
qed

subsection \<open>The inheritance chain\<close>

text \<open>
  C10.  \<open>GetInheritanceChain\<close> appends to the array it is given: after the call the array
  is the given sequence \<open>S\<close>, then this descriptor, then its \<open>SuperClasses\<close>.
\<close>

theorem GetInheritanceChain_appends:
  "desc w this = Some c \<Longrightarrow> GetInheritanceChain w this S = Inr (S @ this # SuperClasses c)"
  by (simp add: GetInheritanceChain_def)

lemma RegisterSupers_None [simp]: "RegisterSupers k h w None acc = Some (w, acc)"
  by (cases k) simp_all

lemma ctor_no_interfaces_leaf:
  assumes "IsA_UClass h T \<longrightarrow> Interfaces h T = []" "GetInheritanceSuper h T = None"
  shows "FClassDesc_ctor k h w T nm = Some (w, FClassDesc_init h T nm [])"
  using assms by simp

lemma RRT_found: "Classes w T = Some d \<Longrightarrow> RegisterReflectedType (Suc k) h w T = Some (w, d)"
  by simp

lemma desc_new:
  "desc (w\<lparr>Classes := f, Descs := Descs w @ [Some c]\<rparr>) d =
     (if d = length (Descs w) then Some c else desc w d)"
  by (simp add: desc_def deref_append)

lemma three_levels_partial:
  assumes sup: "GetInheritanceSuper h C = Some B" "GetInheritanceSuper h B = Some A"
      "GetInheritanceSuper h A = None"
    and fresh: "Classes w C = None"
    and run: "RegisterReflectedType k h w C = Some (w', c)"
  shows "\<exists>b a. Classes w' B = Some b \<and> Classes w' A = Some a \<and> Classes w' C = Some c
           \<and> (\<exists>cd. desc w' c = Some cd \<and> SuperClasses cd = [b, a] \<and> Struct cd = Some C)"
proof -
  have ne: "C \<noteq> B" "C \<noteq> A" using sup by auto
  from run obtain k1 where k: "k = Suc k1" by (cases k) auto
  from run fresh k obtain w3 cd where
    ct: "FClassDesc_ctor k1 h w C (GetMetatableName h C) = Some (w3, cd)"
    and w': "w' = w3\<lparr>Classes := (Classes w3)(C \<mapsto> length (Descs w3)), Descs := Descs w3 @ [Some cd]\<rparr>"
    and c: "c = length (Descs w3)"
    by (auto split: option.splits)
  from ct obtain w1 supers where
    rs: "RegisterSupers k1 h w1 (Some B) [] = Some (w3, supers)"
    and cd: "cd = FClassDesc_init h C (GetMetatableName h C) supers"
    by (auto simp: sup split: option.splits)
  from rs obtain k2 where k1: "k1 = Suc k2" by (cases k1) auto
  from rs k1 obtain w2 b where
    rb: "RegisterReflectedType k2 h w1 B = Some (w2, b)"
    and rs2: "RegisterSupers k2 h w2 (Some A) [b] = Some (w3, supers)"
    by (auto simp: sup split: option.splits)
  from rs2 obtain k3 where k2: "k2 = Suc k3" by (cases k2) auto
  from rs2 k2 obtain a where
    ra: "RegisterReflectedType k3 h w2 A = Some (w3, a)"
    and supers: "supers = [b, a]"
    by (auto simp: sup split: option.splits)
  from registry_extends(1)[OF rb] have b: "Classes w2 B = Some b" by simp
  from registry_extends(1)[OF ra] have e3: "extends w2 w3" and a: "Classes w3 A = Some a"
    by simp_all
  from e3 b have b3: "Classes w3 B = Some b" by (simp add: extends_def)
  have "Classes w' B = Some b" "Classes w' A = Some a" "Classes w' C = Some c"
    using w' b3 a c ne by simp_all
  moreover have "desc w' c = Some cd"
    unfolding w' c by (simp add: desc_new)
  moreover have "SuperClasses cd = [b, a]" "Struct cd = Some C"
    by (simp_all add: cd supers FClassDesc_init_def Let_def)
  ultimately show ?thesis by blast
qed

lemma three_levels_total:
  assumes sup: "GetInheritanceSuper h C = Some B" "GetInheritanceSuper h B = Some A"
      "GetInheritanceSuper h A = None"
    and ni: "IsA_UClass h C \<longrightarrow> Interfaces h C = []" "IsA_UClass h B \<longrightarrow> Interfaces h B = []"
      "IsA_UClass h A \<longrightarrow> Interfaces h A = []"
  shows "\<exists>w' c. RegisterReflectedType (Suc (Suc (Suc (Suc (Suc k))))) h w C = Some (w', c)"
proof (cases "Classes w C")
  case (Some d)
  then show ?thesis by simp
next
  case None
  have A: "\<exists>w' a. RegisterReflectedType (Suc j) h v A = Some (w', a)" for j v
    using sup(3) ni(3) by (cases "Classes v A") auto
  have B: "\<exists>w' b. RegisterReflectedType (Suc (Suc (Suc j))) h v B = Some (w', b)" for j v
  proof (cases "Classes v B")
    case (Some b)
    then show ?thesis by simp
  next
    case None
    obtain v1 a where a: "RegisterReflectedType (Suc j) h v A = Some (v1, a)"
      using A by blast
    show ?thesis using None a sup(2,3) ni(2) by auto
  qed
  obtain v1 b where b: "RegisterReflectedType (Suc (Suc (Suc k))) h w B = Some (v1, b)"
    using B by blast
  obtain v2 a where a: "RegisterReflectedType (Suc (Suc k)) h v1 A = Some (v2, a)"
    using A by blast
  show ?thesis using None a b sup ni(1) by auto
qed

lemma host0_simps [simp]:
  "GetInheritanceSuper host0 s = (if s = 3 then Some 2 else if s = 2 then Some 1 else None)"
  "Interfaces host0 s = []"
  "IsA_UClass host0 s = (s = 1 \<or> s = 2 \<or> s = 3)"
  "GetMetatableName host0 s = (if s = 1 then ''UA'' else if s = 2 then ''UB''
                               else if s = 3 then ''UC'' else ''FStats'')"
  by (simp_all add: host0_def)

lemma worldC_run: "RegisterReflectedType 5 host0 world0 3 = Some (worldC, 2)"
  by (simp add: eval_nat_numeral world0_def worldC_def)

text \<open>Witness: the descriptor of class \<open>3\<close>, called with the one-element array \<open>[7]\<close>.\<close>

theorem GetInheritanceChain_appends_witness:
  "desc worldC 2 = Some (FClassDesc_init host0 3 ''UC'' [1, 0])
   \<and> GetInheritanceChain worldC 2 [7] = Inr [7, 2, 1, 0]"
proof -
  have d: "desc worldC 2 = Some (FClassDesc_init host0 3 ''UC'' [1, 0])"
    by (simp add: worldC_def desc_def deref_def)
  from GetInheritanceChain_appends[OF d, of "[7]"] d show ?thesis
    by (simp add: FClassDesc_init_def Let_def)
qed

text \<open>
  C7.  Let \<open>C\<close> be a type with the ancestors \<open>B\<close> and \<open>A\<close>, \<open>A\<close> topmost, that has no
  descriptor yet.  Whenever the registry returns the descriptor \<open>c\<close> it has constructed
  for \<open>C\<close>, the registry holds descriptors \<open>b\<close> of \<open>B\<close> and \<open>a\<close> of \<open>A\<close>, and
  \<open>GetInheritanceChain\<close> called on \<open>c\<close> with an empty array gives exactly \<open>[c, b, a]\<close>.
  When none of the three types implements an interface, the construction returns with
  any fuel from five on.
\<close>

theorem GetInheritanceChain_three_levels:
  assumes "GetInheritanceSuper h C = Some B" "GetInheritanceSuper h B = Some A"
    "GetInheritanceSuper h A = None"
    and "Classes w C = None"
  shows "(\<forall>k w' c. RegisterReflectedType k h w C = Some (w', c) \<longrightarrow>
            (\<exists>b a. Classes w' B = Some b \<and> Classes w' A = Some a
               \<and> GetInheritanceChain w' c [] = Inr [c, b, a]))
         \<and> ((IsA_UClass h C \<longrightarrow> Interfaces h C = []) \<and> (IsA_UClass h B \<longrightarrow> Interfaces h B = [])
              \<and> (IsA_UClass h A \<longrightarrow> Interfaces h A = []) \<longrightarrow>
            (\<forall>k. \<exists>w' c. RegisterReflectedType (5 + k) h w C = Some (w', c)))"
proof (intro conjI allI impI)
  fix k w' c
  assume "RegisterReflectedType k h w C = Some (w', c)"
  from three_levels_partial[OF assms this] obtain b a cd where
    "Classes w' B = Some b" "Classes w' A = Some a" "desc w' c = Some cd" "SuperClasses cd = [b, a]"
    by blast
  then show "\<exists>b a. Classes w' B = Some b \<and> Classes w' A = Some a
               \<and> GetInheritanceChain w' c [] = Inr [c, b, a]"
    by (simp add: GetInheritanceChain_def)
next
  fix k
  assume "(IsA_UClass h C \<longrightarrow> Interfaces h C = []) \<and> (IsA_UClass h B \<longrightarrow> Interfaces h B = [])
              \<and> (IsA_UClass h A \<longrightarrow> Interfaces h A = [])"
  then show "\<exists>w' c. RegisterReflectedType (5 + k) h w C = Some (w', c)"
    using three_levels_total[OF assms(1-3), of k w] by (simp add: eval_nat_numeral)
qed

text \<open>Witness: the classes \<open>3\<close>, \<open>2\<close>, \<open>1\<close> of \<open>host0\<close>, from the empty world.\<close>

theorem GetInheritanceChain_three_levels_witness:
  "RegisterReflectedType 5 host0 world0 3 = Some (worldC, 2)
   \<and> Classes worldC 2 = Some 1 \<and> Classes worldC 1 = Some 0
   \<and> GetInheritanceChain worldC 2 [] = Inr [2, 1, 0]"
proof -
  have s: "GetInheritanceSuper host0 3 = Some 2" "GetInheritanceSuper host0 2 = Some 1"
    "GetInheritanceSuper host0 1 = None"
    by simp_all
  have f: "Classes world0 3 = None" by (simp add: world0_def)
  from GetInheritanceChain_three_levels[OF s f] worldC_run
  obtain b a where "Classes worldC 2 = Some b" "Classes worldC 1 = Some a"
    "GetInheritanceChain worldC 2 [] = Inr [2, b, a]"
    by blast
  moreover have "Classes worldC 2 = Some 1" "Classes worldC 1 = Some 0"
    by (simp_all add: worldC_def)
  ultimately show ?thesis using worldC_run by simp
qed

subsection \<open>FindField\<close>

lemma host0_members [simp]:
  "FindPropertyByName host0 s n =
     (if n = ''Hp'' \<and> (s = 1 \<or> s = 2 \<or> s = 3) then Some 100
      else if n = ''Health_01234567890123456789012345678901_3'' \<and> s = 10 then Some 101 else None)"
  "FindFunctionByName host0 s n = (if n = ''Jump'' \<and> (s = 1 \<or> s = 2 \<or> s = 3) then Some 200 else None)"
  "GetPropertyOuter host0 p = (if p = 101 then 10 else 1)"
  "GetOuter host0 f = 1"
  "Cast_UStruct host0 ob = Some ob"
  "IsNative host0 s = (s \<noteq> 10)"
  "IsA_UScriptStruct host0 s = (s = 10)"
  "PropertyIt host0 s = (if s = 10 then [101] else if s = 1 then [100] else [])"
  "GetName host0 p = (if p = 101 then ''Health_01234567890123456789012345678901_3'' else ''Hp'')"
  "FindObject host0 n = (if n = ''A'' then Some 1 else if n = ''B'' then Some 2
                         else if n = ''C'' then Some 3 else if n = ''Stats'' then Some 10 else None)"
  "LoadObject host0 n = None"
  "FunctionCollection_Find host0 fc n = None"
  "GDefaultParamCollection_Find host0 n = None"
  by (simp_all add: host0_def)

lemmas run_simps =
  eval_nat_numeral Load_def Load_desc_def desc_def deref_def put_desc_def FClassDesc_init_def
  FindMember_def OuterStructOf_def RegisterLocal_def Let_def

lemma worldHp_run: "RegisterField 5 host0 worldC 2 ''Hp'' 2 = Some (Inr (worldHp, Some 0))"
  by (simp add: run_simps worldC_def worldHp_def)

text \<open>
  C8.  \<open>FindField\<close> runs \<open>Load\<close> and then only looks the name up.  When \<open>Load\<close> stops, so
  does \<open>FindField\<close>; otherwise it returns, in the world \<open>Load\<close> has left, the entry of
  \<open>Fields\<close> under the name (\<open>None\<close> when there is none).  \<open>Fields\<close>, \<open>Properties\<close> and
  \<open>Functions\<close> of this descriptor are as before the call, so are all other descriptors,
  the registry and the field descriptors, and no factory has been called.
\<close>

theorem FindField_lookup_only:
  assumes "desc w this = Some c"
  shows "case Load h w this of
           Inl e \<Rightarrow> FindField h w this n = Inl e
         | Inr w1 \<Rightarrow>
             FindField h w this n = Inr (w1, map_of (Fields c) n)
             \<and> (\<exists>c'. desc w1 this = Some c' \<and> Fields c' = Fields c
                    \<and> Properties c' = Properties c \<and> Functions c' = Functions c)
             \<and> (\<forall>d. d \<noteq> this \<longrightarrow> desc w1 d = desc w d)
             \<and> Classes w1 = Classes w \<and> FieldDescs w1 = FieldDescs w
             \<and> FactoryLog w1 = FactoryLog w"
proof (cases "Load h w this")
  case (Inl e)
  then show ?thesis by (simp add: FindField_def)
next
  case (Inr w1)
  then obtain c0 c' where l: "desc w this = Some c0" "Load_desc h c0 = Inr c'"
    "w1 = put_desc w this c'" "desc w1 this = Some c'"
    by (rule Load_InrD)
  with assms have c0: "c0 = c" by simp
  have same: "Fields c' = Fields c" "Properties c' = Properties c" "Functions c' = Functions c"
    using Load_desc_keeps[OF l(2)] by (simp_all add: c0)
  have "FindField h w this n = Inr (w1, map_of (Fields c) n)"
    using Inr l(4) same by (simp add: FindField_def)
  moreover have "\<forall>d. d \<noteq> this \<longrightarrow> desc w1 d = desc w d"
    by (simp add: l(3) desc_put_desc)
  ultimately show ?thesis using Inr l(3,4) same by simp
qed

text \<open>
  Witness: on the descriptor of class \<open>1\<close>, where \<^verbatim>\<open>Hp\<close> is registered, \<open>FindField\<close>
  returns the field descriptor \<open>0\<close> for \<^verbatim>\<open>Hp\<close> and nothing for \<^verbatim>\<open>Jump\<close>.
\<close>

theorem FindField_lookup_only_witness:
  "FindField host0 worldHp 0 ''Hp'' = Inr (worldHp, Some 0)
   \<and> FindField host0 worldHp 0 ''Jump'' = Inr (worldHp, None)"
proof -
  let ?c = "(FClassDesc_init host0 1 ''UA'' [])
              \<lparr>Fields := [(''Hp'', 0)], Properties := [FPropertyDesc_Create 100]\<rparr>"
  have d: "desc worldHp 0 = Some ?c"
    by (simp add: worldHp_def desc_def deref_def)
  have l: "Load host0 worldHp 0 = Inr worldHp"
    by (rule Load_loaded[OF d]) (simp add: FClassDesc_init_def Let_def)
  from FindField_lookup_only[OF d, of host0 "''Hp''"] FindField_lookup_only[OF d, of host0 "''Jump''"]
  show ?thesis by (simp add: l)
qed

subsection \<open>Load and UnLoad\<close>

lemma supers_of_put_desc:
  "desc w d = Some c \<Longrightarrow> SuperClasses c' = SuperClasses c \<Longrightarrow>
   supers_of (put_desc w d c') x = supers_of w x"
  by (simp add: supers_of_def desc_put_desc)

lemma Load_supers_of:
  assumes "Load h w this = Inr w'"
  shows "supers_of w' d = supers_of w d"
proof -
  from assms obtain c c' where l: "desc w this = Some c" "Load_desc h c = Inr c'"
    "w' = put_desc w this c'"
    by (rule Load_InrD)
  from l(2) have "SuperClasses c' = SuperClasses c" by (rule Load_desc_keeps)
  with l show ?thesis by (simp add: supers_of_put_desc)
qed

lemma desc_FieldDescs_update [simp]: "desc (w\<lparr>FieldDescs := H\<rparr>) d = desc w d"
  by (simp add: desc_def)

lemma UnLoad_InrD:
  assumes "UnLoad w this = Inr w'"
  obtains (noop) c where "desc w this = Some c" "Struct c = None" "w' = w"
  | (drop) c where "desc w this = Some c" "Struct c \<noteq> None" "w' = unloaded w this c"
proof -
  from assms obtain c where c: "desc w this = Some c"
    by (cases "desc w this") (simp_all add: UnLoad_def)
  show thesis
  proof (cases "Struct c = None")
    case True
    with assms c have "w' = w" by (simp add: UnLoad_def)
    with c True show thesis by (rule noop)
  next
    case False
    with assms c have "w' = unloaded w this c" by (simp add: UnLoad_def unloaded_def)
    with c False show thesis by (rule drop)
  qed
qed

lemma desc_unloaded:
  assumes "desc w this = Some c"
  shows "desc (unloaded w this c) d =
     (if d = this then Some (c\<lparr>Fields := [], Properties := [], Functions := [], Struct := None\<rparr>)
      else desc w d)"
proof -
  from assms have "this < length (Descs w)" by (rule desc_Some_less)
  then show ?thesis by (simp add: unloaded_def desc_put_desc)
qed

lemma UnLoad_supers_of:
  assumes "UnLoad w this = Inr w'"
  shows "supers_of w' d = supers_of w d"
  using assms
proof (cases rule: UnLoad_InrD)
  case (noop c)
  then show ?thesis by simp
next
  case (drop c)
  then show ?thesis by (simp add: supers_of_def desc_unloaded)
qed

text \<open>
  C5.  When \<open>Load\<close>, \<open>UnLoad\<close> and \<open>Load\<close> again have run on a descriptor, its \<open>Fields\<close>,
  \<open>Properties\<close> and \<open>Functions\<close> are empty, so no name registered before is found in
  \<open>Fields\<close>; and \<open>SuperClasses\<close> of every descriptor is, after each of the three
  steps, what it was at the start.  No call of \<open>Load\<close> or \<open>UnLoad\<close>, in any world,
  changes the \<open>SuperClasses\<close> of any descriptor.
\<close>

theorem Load_UnLoad_Load_roundtrip:
  assumes "Load h w this = Inr w1" "UnLoad w1 this = Inr w2" "Load h w2 this = Inr w3"
  shows "(\<exists>c3. desc w3 this = Some c3 \<and> Fields c3 = [] \<and> (\<forall>n. map_of (Fields c3) n = None)
            \<and> Properties c3 = [] \<and> Functions c3 = [])
         \<and> (\<forall>d. supers_of w1 d = supers_of w d \<and> supers_of w2 d = supers_of w d
                \<and> supers_of w3 d = supers_of w d)
         \<and> (\<forall>v v' x d. Load h v x = Inr v' \<longrightarrow> supers_of v' d = supers_of v d)
         \<and> (\<forall>v v' x d. UnLoad v x = Inr v' \<longrightarrow> supers_of v' d = supers_of v d)"
proof -
  from assms(1) obtain c0 c1 where l1: "desc w1 this = Some c1" "Load_desc h c0 = Inr c1"
    by (rule Load_InrD)
  from Load_desc_Inr[OF l1(2)] have loaded: "Struct c1 \<noteq> None" by simp
  have d2: "desc w2 this = Some (c1\<lparr>Fields := [], Properties := [], Functions := [], Struct := None\<rparr>)"
    using assms(2)
  proof (cases rule: UnLoad_InrD)
    case (noop c)
    with l1(1) loaded show ?thesis by simp
  next
    case (drop c)
    with l1(1) show ?thesis by (simp add: desc_unloaded)
  qed
  from assms(3) obtain c2 c3 where l3: "desc w2 this = Some c2" "Load_desc h c2 = Inr c3"
    "desc w3 this = Some c3"
    by (rule Load_InrD)
  from l3(1) d2 have c2: "c2 = c1\<lparr>Fields := [], Properties := [], Functions := [], Struct := None\<rparr>"
    by simp
  from l3(2) have "Fields c3 = Fields c2" "Properties c3 = Properties c2" "Functions c3 = Functions c2"
    by (rule Load_desc_keeps)+
  then have empty: "Fields c3 = []" "Properties c3 = []" "Functions c3 = []"
    by (simp_all add: c2)
  have s1: "supers_of w1 d = supers_of w d" for d
    using assms(1) by (rule Load_supers_of)
  have s2: "supers_of w2 d = supers_of w d" for d
    using UnLoad_supers_of[OF assms(2)] s1 by simp
  have s3: "supers_of w3 d = supers_of w d" for d
    using Load_supers_of[OF assms(3)] s2 by simp
  have "\<exists>c3. desc w3 this = Some c3 \<and> Fields c3 = [] \<and> (\<forall>n. map_of (Fields c3) n = None)
            \<and> Properties c3 = [] \<and> Functions c3 = []"
    using l3(3) empty by simp
  moreover have "\<forall>d. supers_of w1 d = supers_of w d \<and> supers_of w2 d = supers_of w d
                \<and> supers_of w3 d = supers_of w d"
    using s1 s2 s3 by simp
  moreover have "\<forall>v v' x d. Load h v x = Inr v' \<longrightarrow> supers_of v' d = supers_of v d"
    using Load_supers_of by blast
  moreover have "\<forall>v v' x d. UnLoad v x = Inr v' \<longrightarrow> supers_of v' d = supers_of v d"
    using UnLoad_supers_of by blast
  ultimately show ?thesis by blast
qed

text \<open>
  Witness: the descriptor of class \<open>1\<close> with \<^verbatim>\<open>Hp\<close> registered.  After the three
  calls it has no field, and the descriptor of class \<open>3\<close> still has the ancestors
  \<open>[1, 0]\<close>.
\<close>

theorem Load_UnLoad_Load_roundtrip_witness:
  "\<exists>w2 w3 c3. Load host0 worldHp 0 = Inr worldHp \<and> UnLoad worldHp 0 = Inr w2
     \<and> Load host0 w2 0 = Inr w3 \<and> desc w3 0 = Some c3 \<and> Fields c3 = []
     \<and> Properties c3 = [] \<and> Functions c3 = []
     \<and> supers_of worldHp 2 = Some [1, 0] \<and> supers_of w3 2 = Some [1, 0]"
proof -
  have l: "Load host0 worldHp 0 = Inr worldHp"
    by (simp add: run_simps worldHp_def)
  obtain w2 w3 where r: "UnLoad worldHp 0 = Inr w2" "Load host0 w2 0 = Inr w3"
    by (simp add: run_simps UnLoad_def RightChop_def delete_fields_def worldHp_def)
  from Load_UnLoad_Load_roundtrip[OF l r] obtain c3 where
    c3: "desc w3 0 = Some c3" "Fields c3 = []" "Properties c3 = []" "Functions c3 = []"
    and s: "supers_of w3 2 = supers_of worldHp 2"
    by blast
  have "supers_of worldHp 2 = Some [1, 0]"
    by (simp add: supers_of_def run_simps worldHp_def)
  with l r c3 s show ?thesis by (intro exI[of _ w2] exI[of _ w3] exI[of _ c3]) simp
qed

subsection \<open>Names that are not found\<close>

lemma FindMember_none:
  assumes "FindPropertyByName h S n = None"
    and "bIsClass c \<longrightarrow> FindFunctionByName h S n = None"
    and "bIsScriptStruct c \<and> \<not> IsNative h S \<longrightarrow> RecoverProperty h n (PropertyIt h S) = None"
  shows "FindMember h c S n = (None, None)"
  using assms by (auto simp: FindMember_def)

lemma RegisterField_absent:
  assumes "Load h w this = Inr w1" "desc w1 this = Some c" "map_of (Fields c) n = None"
    "Struct c = Some S"
    "FindMember h c S n = (None, None)
     \<or> OuterStructOf h (fst (FindMember h c S n)) (snd (FindMember h c S n)) = None"
  shows "RegisterField (Suc k) h w this n q = Some (Inr (w1, None))"
  using assms by (auto simp: Let_def)

text \<open>
  C6.  Let \<open>Load\<close> succeed on a descriptor whose \<open>Fields\<close> has no entry for the name.
  When the type has no property of that name, no function of that name if it is a class,
  and no property recovered to that name if it is a script struct that is not native,
  \<open>RegisterField\<close> returns null, and so it does when a member is found whose owner is
  not a \<^verbatim>\<open>UStruct\<close>.  In both cases the call returns (with any fuel from one on)
  and is no fatal stop, and the world is the one \<open>Load\<close> left.
\<close>

theorem RegisterField_not_found_absent:
  assumes "Load h w this = Inr w1" "desc w1 this = Some c" "map_of (Fields c) n = None"
    "Struct c = Some S"
  shows "(FindPropertyByName h S n = None
          \<and> (bIsClass c \<longrightarrow> FindFunctionByName h S n = None)
          \<and> (bIsScriptStruct c \<and> \<not> IsNative h S \<longrightarrow> RecoverProperty h n (PropertyIt h S) = None)
          \<longrightarrow> RegisterField (Suc k) h w this n q = Some (Inr (w1, None)))
         \<and> (OuterStructOf h (fst (FindMember h c S n)) (snd (FindMember h c S n)) = None
          \<longrightarrow> RegisterField (Suc k) h w this n q = Some (Inr (w1, None)))"
proof (intro conjI impI)
  assume "FindPropertyByName h S n = None
          \<and> (bIsClass c \<longrightarrow> FindFunctionByName h S n = None)
          \<and> (bIsScriptStruct c \<and> \<not> IsNative h S \<longrightarrow> RecoverProperty h n (PropertyIt h S) = None)"
  then have "FindMember h c S n = (None, None)"
    by (intro FindMember_none) simp_all
  then have "FindMember h c S n = (None, None)
     \<or> OuterStructOf h (fst (FindMember h c S n)) (snd (FindMember h c S n)) = None"
    by (rule disjI1)
  from RegisterField_absent[OF assms this]
  show "RegisterField (Suc k) h w this n q = Some (Inr (w1, None))" .
next
  assume "OuterStructOf h (fst (FindMember h c S n)) (snd (FindMember h c S n)) = None"
  then have "FindMember h c S n = (None, None)
     \<or> OuterStructOf h (fst (FindMember h c S n)) (snd (FindMember h c S n)) = None"
    by (rule disjI2)
  from RegisterField_absent[OF assms this]
  show "RegisterField (Suc k) h w this n q = Some (Inr (w1, None))" .
qed

text \<open>
  Witness: class \<open>3\<close> has no member \<^verbatim>\<open>Armor\<close>; and in a host whose cast to
  \<^verbatim>\<open>UStruct\<close> always fails, its property \<^verbatim>\<open>Hp\<close> is found and not registered.
\<close>

theorem RegisterField_not_found_absent_witness:
  "RegisterField 1 host0 worldC 2 ''Armor'' 2 = Some (Inr (worldC, None))
   \<and> RegisterField 1 (host0\<lparr>Cast_UStruct := \<lambda>ob. None\<rparr>) worldC 2 ''Hp'' 2 = Some (Inr (worldC, None))"
proof -
  let ?c = "FClassDesc_init host0 3 ''UC'' [1, 0]"
  let ?h = "host0\<lparr>Cast_UStruct := \<lambda>ob. None\<rparr>"
  have d: "desc worldC 2 = Some ?c"
    by (simp add: worldC_def desc_def deref_def)
  have s: "Struct ?c = Some 3" "map_of (Fields ?c) n = None" for n
    by (simp_all add: FClassDesc_init_def Let_def)
  have l: "Load h worldC 2 = Inr worldC" for h
    using s(1) by (intro Load_loaded[OF d]) simp
  have "RegisterField (Suc 0) host0 worldC 2 ''Armor'' 2 = Some (Inr (worldC, None))"
    using RegisterField_not_found_absent[OF l d s(2) s(1), of host0 "''Armor''" 0 2]
    by (simp add: FClassDesc_init_def Let_def)
  moreover have "RegisterField (Suc 0) ?h worldC 2 ''Hp'' 2 = Some (Inr (worldC, None))"
    using RegisterField_not_found_absent[OF l d s(2) s(1), of ?h "''Hp''" 0 2]
    by (simp add: FindMember_def OuterStructOf_def host0_def FClassDesc_init_def Let_def)
  ultimately show ?thesis by simp
qed

subsection \<open>Local registration\<close>

lemma map_of_TMap_Add: "map_of (TMap_Add k v m) = (map_of m)(k \<mapsto> v)"
  by (induction m) (auto simp: fun_eq_iff)

lemma RegisterField_local:
  assumes "Load h w this = Inr w1" "desc w1 this = Some c" "map_of (Fields c) n = None"
    "Struct c = Some S" "FindMember h c S n = (P, F)" "P \<noteq> None \<or> F \<noteq> None"
    "OuterStructOf h P F = Some S"
  shows "RegisterField (Suc k) h w this n q = Some (RegisterLocal h w1 this c n q P F)"
  using assms by (auto simp: Let_def)

lemma world_update_simps [simp]:
  "field (w\<lparr>FieldDescs := H\<rparr>) a = deref H a"
  "field (w\<lparr>FactoryLog := l\<rparr>) a = field w a"
  "desc (w\<lparr>FactoryLog := l\<rparr>) d = desc w d"
  by (simp_all add: field_def desc_def)

lemma desc_alloc:
  assumes "desc w d = Some c"
  shows "desc (put_desc (w\<lparr>FieldDescs := H, FactoryLog := l\<rparr>) d c') d = Some c'"
proof -
  from assms have "d < length (Descs w)" by (rule desc_Some_less)
  then show ?thesis by (simp add: desc_put_desc)
qed

lemma RegisterLocal_property:
  assumes "desc w this = Some c"
  shows "\<exists>w'. RegisterLocal h w this c n q (Some p) F = Inr (w', Some (length (FieldDescs w)))
           \<and> field w' (length (FieldDescs w)) =
               Some \<lparr>QueryClass = q, OuterClass = this, FieldIndex = int (length (Properties c)) + 1\<rparr>
           \<and> desc w' this =
               Some (c\<lparr>Fields := TMap_Add n (length (FieldDescs w)) (Fields c),
                       Properties := Properties c @ [FPropertyDesc_Create p]\<rparr>)"
  using assms by (simp add: RegisterLocal_def Let_def deref_append desc_alloc)

lemma RegisterLocal_function:
  assumes "desc w this = Some c"
  shows "\<exists>w'. RegisterLocal h w this c n q None (Some f) = Inr (w', Some (length (FieldDescs w)))
           \<and> field w' (length (FieldDescs w)) =
               Some \<lparr>QueryClass = q, OuterClass = this, FieldIndex = - (int (length (Functions c)) + 1)\<rparr>
           \<and> desc w' this =
               Some (c\<lparr>Fields := TMap_Add n (length (FieldDescs w)) (Fields c),
                       Functions := Functions c @ [FFunctionDesc_new f
                          (case FunctionCollection c of Some fc \<Rightarrow> FunctionCollection_Find h fc n | None \<Rightarrow> None)]\<rparr>)"
  using assms by (simp add: RegisterLocal_def Let_def deref_append desc_alloc)

lemma RegisterField_registers_locally:
  assumes "Load h w this = Inr w1" "desc w1 this = Some c" "map_of (Fields c) n = None"
    "Struct c = Some S" "FindMember h c S n = (P, F)" "P \<noteq> None \<or> F \<noteq> None"
    "OuterStructOf h P F = Some S"
  shows "\<exists>w' fr fd c'.
           RegisterField (Suc k) h w this n q = Some (Inr (w', Some fr))
           \<and> field w' fr = Some fd \<and> desc w' this = Some c' \<and> map_of (Fields c') n = Some fr
           \<and> FieldIndex fd \<noteq> 0
           \<and> (case P of
                 Some p \<Rightarrow>
                   0 < FieldIndex fd
                   \<and> nat (\<bar>FieldIndex fd\<bar> - 1) = length (Properties c)
                   \<and> Properties c' = Properties c @ [FPropertyDesc_Create p]
                   \<and> Properties c' ! nat (\<bar>FieldIndex fd\<bar> - 1) = FPropertyDesc_Create p
                   \<and> Functions c' = Functions c
               | None \<Rightarrow>
                   FieldIndex fd < 0
                   \<and> nat (\<bar>FieldIndex fd\<bar> - 1) = length (Functions c)
                   \<and> (\<exists>f dp. F = Some f
                         \<and> dp = (case FunctionCollection c of Some fc \<Rightarrow> FunctionCollection_Find h fc n | None \<Rightarrow> None)
                         \<and> Functions c' = Functions c @ [FFunctionDesc_new f dp]
                         \<and> Functions c' ! nat (\<bar>FieldIndex fd\<bar> - 1) = FFunctionDesc_new f dp)
                   \<and> Properties c' = Properties c)"
proof -
  have run: "RegisterField (Suc k) h w this n q = Some (RegisterLocal h w1 this c n q P F)"
    using assms by (rule RegisterField_local)
  show ?thesis
  proof (cases P)
    case (Some p)
    from RegisterLocal_property[OF assms(2), of h n q p F] obtain w' where
      "RegisterLocal h w1 this c n q (Some p) F = Inr (w', Some (length (FieldDescs w1)))"
      "field w' (length (FieldDescs w1)) =
         Some \<lparr>QueryClass = q, OuterClass = this, FieldIndex = int (length (Properties c)) + 1\<rparr>"
      "desc w' this =
         Some (c\<lparr>Fields := TMap_Add n (length (FieldDescs w1)) (Fields c),
                 Properties := Properties c @ [FPropertyDesc_Create p]\<rparr>)"
      by blast
    with run Some show ?thesis
      by (simp add: map_of_TMap_Add)
  next
    case None
    with assms(6) obtain f where f: "F = Some f" by auto
    from RegisterLocal_function[OF assms(2), of h n q f] obtain w' where
      "RegisterLocal h w1 this c n q None (Some f) = Inr (w', Some (length (FieldDescs w1)))"
      "field w' (length (FieldDescs w1)) =
         Some \<lparr>QueryClass = q, OuterClass = this, FieldIndex = - (int (length (Functions c)) + 1)\<rparr>"
      "desc w' this =
         Some (c\<lparr>Fields := TMap_Add n (length (FieldDescs w1)) (Fields c),
                 Functions := Functions c @ [FFunctionDesc_new f
                    (case FunctionCollection c of Some fc \<Rightarrow> FunctionCollection_Find h fc n | None \<Rightarrow> None)]\<rparr>)"
      by blast
    with run None f show ?thesis
      by (simp add: map_of_TMap_Add)
  qed
qed

text \<open>
  C3.  Let \<open>RegisterField\<close> reach the local registration: \<open>Load\<close> succeeds, the name
  is not in \<open>Fields\<close>, and a property \<open>P\<close> or a function \<open>F\<close> is found whose owner is
  this descriptor's own type.  Then the call returns a field descriptor \<open>fd\<close>, entered
  in \<open>Fields\<close> under the name, whose \<open>FieldIndex\<close> is not zero.  For a property it is
  positive, for a function negative; in both cases its magnitude less one is the
  position at which the new property or function descriptor has been appended to
  \<open>Properties\<close> or \<open>Functions\<close>, and the other sequence is unchanged.
\<close>

theorem RegisterField_index_sign:
  assumes "Load h w this = Inr w1" "desc w1 this = Some c" "map_of (Fields c) n = None"
    "Struct c = Some S" "FindMember h c S n = (P, F)" "P \<noteq> None \<or> F \<noteq> None"
    "OuterStructOf h P F = Some S"
  shows "\<exists>w' fr fd c'.
           RegisterField (Suc k) h w this n q = Some (Inr (w', Some fr))
           \<and> field w' fr = Some fd \<and> desc w' this = Some c' \<and> map_of (Fields c') n = Some fr
           \<and> FieldIndex fd \<noteq> 0
           \<and> (case P of
                 Some p \<Rightarrow>
                   0 < FieldIndex fd
                   \<and> nat (\<bar>FieldIndex fd\<bar> - 1) = length (Properties c)
                   \<and> Properties c' = Properties c @ [FPropertyDesc_Create p]
                   \<and> Properties c' ! nat (\<bar>FieldIndex fd\<bar> - 1) = FPropertyDesc_Create p
                   \<and> Functions c' = Functions c
               | None \<Rightarrow>
                   FieldIndex fd < 0
                   \<and> nat (\<bar>FieldIndex fd\<bar> - 1) = length (Functions c)
                   \<and> (\<exists>f dp. F = Some f
                         \<and> dp = (case FunctionCollection c of Some fc \<Rightarrow> FunctionCollection_Find h fc n | None \<Rightarrow> None)
                         \<and> Functions c' = Functions c @ [FFunctionDesc_new f dp]
                         \<and> Functions c' ! nat (\<bar>FieldIndex fd\<bar> - 1) = FFunctionDesc_new f dp)
                   \<and> Properties c' = Properties c)"
  using assms by (rule RegisterField_registers_locally)

text \<open>
  Witness: on the descriptor of class \<open>1\<close>, the property \<^verbatim>\<open>Hp\<close> gets the index \<open>1\<close>
  and the function \<^verbatim>\<open>Jump\<close> the index \<open>-1\<close>.
\<close>

theorem RegisterField_index_sign_witness:
  "(\<exists>w' fr fd. RegisterField (Suc 0) host0 worldC 0 ''Hp'' 0 = Some (Inr (w', Some fr))
      \<and> field w' fr = Some fd \<and> FieldIndex fd = 1)
   \<and> (\<exists>w' fr fd. RegisterField (Suc 0) host0 worldC 0 ''Jump'' 0 = Some (Inr (w', Some fr))
      \<and> field w' fr = Some fd \<and> FieldIndex fd = - 1)"
proof -
  let ?c = "FClassDesc_init host0 1 ''UA'' []"
  have d: "desc worldC 0 = Some ?c"
    by (simp add: worldC_def desc_def deref_def)
  have s: "Struct ?c = Some 1" "map_of (Fields ?c) n = None" "Properties ?c = []"
    "Functions ?c = []" for n
    by (simp_all add: FClassDesc_init_def Let_def)
  have l: "Load host0 worldC 0 = Inr worldC"
    using s(1) by (intro Load_loaded[OF d]) simp
  have m1: "FindMember host0 ?c 1 ''Hp'' = (Some 100, None)"
    by (simp add: FindMember_def FClassDesc_init_def Let_def)
  have m2: "FindMember host0 ?c 1 ''Jump'' = (None, Some 200)"
    by (simp add: FindMember_def FClassDesc_init_def Let_def)
  have o: "OuterStructOf host0 (Some 100) None = Some 1" "OuterStructOf host0 None (Some 200) = Some 1"
    by (simp_all add: OuterStructOf_def)
  from RegisterField_index_sign[OF l d s(2) s(1) m1 _ o(1), of 0 0]
  obtain w' fr fd where r1:
    "RegisterField (Suc 0) host0 worldC 0 ''Hp'' 0 = Some (Inr (w', Some fr))"
    "field w' fr = Some fd"
    and i1: "0 < FieldIndex fd" "nat (\<bar>FieldIndex fd\<bar> - 1) = length (Properties ?c)"
    by auto
  from i1 have "FieldIndex fd = 1" unfolding s(3) by simp
  with r1 have p: "\<exists>w' fr fd. RegisterField (Suc 0) host0 worldC 0 ''Hp'' 0 = Some (Inr (w', Some fr))
      \<and> field w' fr = Some fd \<and> FieldIndex fd = 1"
    by blast
  from RegisterField_index_sign[OF l d s(2) s(1) m2 _ o(2), of 0 0]
  obtain w' fr fd where r2:
    "RegisterField (Suc 0) host0 worldC 0 ''Jump'' 0 = Some (Inr (w', Some fr))"
    "field w' fr = Some fd"
    and i2: "FieldIndex fd < 0" "nat (\<bar>FieldIndex fd\<bar> - 1) = length (Functions ?c)"
    by auto
  from i2 have "FieldIndex fd = - 1" unfolding s(4) by simp
  with r2 have "\<exists>w' fr fd. RegisterField (Suc 0) host0 worldC 0 ''Jump'' 0 = Some (Inr (w', Some fr))
      \<and> field w' fr = Some fd \<and> FieldIndex fd = - 1"
    by blast
  with p show ?thesis by blast
qed


lemma FindLastChar_None: "FindLastChar c s = None \<longleftrightarrow> c \<notin> set s"
  by (induction s) (auto split: option.splits)






lemma worldS_run: "RegisterReflectedType 1 host0 world0 10 = Some (worldS, 0)"
  by (simp add: world0_def worldS_def)


subsection \<open>What a call of RegisterField may change\<close>

lemma kept_refl: "kept c c"
  by (simp add: kept_def)

lemma kept_trans: "kept c c1 \<Longrightarrow> kept c1 c2 \<Longrightarrow> kept c c2"
  by (simp add: kept_def)

lemma kept_Load_desc:
  assumes "Load_desc h c = Inr c'"
  shows "kept c c'" "Fields c' = Fields c" "Properties c' = Properties c" "Functions c' = Functions c"
  using assms by (cases rule: Load_desc_cases; simp add: kept_def)+

lemma effect_refl: "effect n r w w"
  by (simp add: effect_def kept_refl)

lemma effect_trans:
  assumes "effect n r w w1" "effect n r w1 w2"
  shows "effect n r w w2"
  unfolding effect_def
proof (intro conjI allI impI)
  fix T d
  assume "Classes w T = Some d"
  with assms show "Classes w2 T = Some d" by (simp add: effect_def)
next
  fix d c
  assume d: "desc w d = Some c"
  with assms(1) obtain c1 where c1: "desc w1 d = Some c1" "kept c c1"
    "r = None \<longrightarrow> Fields c1 = Fields c \<and> Properties c1 = Properties c \<and> Functions c1 = Functions c"
    "\<forall>x. map_of (Fields c) n = None \<longrightarrow> map_of (Fields c1) n = Some x \<longrightarrow> r = Some x"
    unfolding effect_def by blast
  from assms(2) c1(1) obtain c2 where c2: "desc w2 d = Some c2" "kept c1 c2"
    "r = None \<longrightarrow> Fields c2 = Fields c1 \<and> Properties c2 = Properties c1 \<and> Functions c2 = Functions c1"
    "\<forall>x. map_of (Fields c1) n = None \<longrightarrow> map_of (Fields c2) n = Some x \<longrightarrow> r = Some x"
    unfolding effect_def by blast
  have k: "kept c c2" using c1(2) c2(2) by (rule kept_trans)
  have f: "r = None \<longrightarrow> Fields c2 = Fields c \<and> Properties c2 = Properties c \<and> Functions c2 = Functions c"
    using c1(3) c2(3) by simp
  have "\<forall>x. map_of (Fields c) n = None \<longrightarrow> map_of (Fields c2) n = Some x \<longrightarrow> r = Some x"
  proof (intro allI impI)
    fix x
    assume a: "map_of (Fields c) n = None" "map_of (Fields c2) n = Some x"
    show "r = Some x"
    proof (cases "map_of (Fields c1) n")
      case None
      with c2(4) a(2) show ?thesis by simp
    next
      case (Some y)
      with c1(4) a(1) have r: "r = Some y" by simp
      from c2(2) Some have "map_of (Fields c2) n = Some y" by (simp add: kept_def)
      with a(2) r show ?thesis by simp
    qed
  qed
  with c2(1) k f
  show "\<exists>c'. desc w2 d = Some c' \<and> kept c c'
          \<and> (r = None \<longrightarrow> Fields c' = Fields c \<and> Properties c' = Properties c
                            \<and> Functions c' = Functions c)
          \<and> (\<forall>x. map_of (Fields c) n = None \<longrightarrow> map_of (Fields c') n = Some x \<longrightarrow> r = Some x)"
    by blast
next
  assume "r = None"
  with assms show "FieldDescs w2 = FieldDescs w" "FactoryLog w2 = FactoryLog w"
    by (simp_all add: effect_def)
next
  fix d c2
  assume r: "r = None" and d: "desc w d = None" "desc w2 d = Some c2"
  show "fresh_desc c2"
  proof (cases "desc w1 d")
    case None
    with assms(2) r d(2) show ?thesis unfolding effect_def by blast
  next
    case (Some c1)
    with assms(1) r d(1) have f: "fresh_desc c1" unfolding effect_def by blast
    from assms(2) Some r obtain c2' where "desc w2 d = Some c2'" "kept c1 c2'"
      "Fields c2' = Fields c1 \<and> Properties c2' = Properties c1 \<and> Functions c2' = Functions c1"
      unfolding effect_def by blast
    with d(2) f show ?thesis by (simp add: fresh_desc_def kept_def)
  qed
qed

lemma effect_Load:
  assumes "Load h w this = Inr w1"
  shows "effect n r w w1"
proof -
  from assms obtain c c' where l: "desc w this = Some c" "Load_desc h c = Inr c'"
    "w1 = put_desc w this c'"
    by (rule Load_InrD)
  note k = kept_Load_desc[OF l(2)]
  have lt: "this < length (Descs w)" using l(1) by (rule desc_Some_less)
  have "\<exists>c1. desc w1 d = Some c1 \<and> kept c0 c1
          \<and> (r = None \<longrightarrow> Fields c1 = Fields c0 \<and> Properties c1 = Properties c0
                            \<and> Functions c1 = Functions c0)
          \<and> (\<forall>x. map_of (Fields c0) n = None \<longrightarrow> map_of (Fields c1) n = Some x \<longrightarrow> r = Some x)"
    if "desc w d = Some c0" for d c0
  proof (cases "d = this")
    case True
    with that l(1) have "c0 = c" by simp
    with True k lt show ?thesis by (simp add: l(3) desc_put_desc)
  next
    case False
    with that show ?thesis by (simp add: l(3) desc_put_desc kept_refl)
  qed
  moreover have "desc w d = None \<longrightarrow> desc w1 d = Some c1 \<longrightarrow> fresh_desc c1" for d c1
    using l(1) by (auto simp: l(3) desc_put_desc split: if_splits)
  ultimately show ?thesis
    unfolding effect_def by (simp add: l(3))
qed

lemma effect_extends:
  assumes "extends w w'"
  shows "effect n r w w'"
  unfolding effect_def
proof (intro conjI allI impI)
  fix d c
  assume "desc w d = Some c"
  with assms have "desc w' d = Some c" by (rule extends_desc)
  then show "\<exists>c'. desc w' d = Some c' \<and> kept c c'
          \<and> (r = None \<longrightarrow> Fields c' = Fields c \<and> Properties c' = Properties c
                            \<and> Functions c' = Functions c)
          \<and> (\<forall>x. map_of (Fields c) n = None \<longrightarrow> map_of (Fields c') n = Some x \<longrightarrow> r = Some x)"
    by (simp add: kept_refl)
next
  fix d c'
  assume "desc w d = None" "desc w' d = Some c'"
  with assms show "fresh_desc c'" by (rule extends_new)
qed (use assms in \<open>simp_all add: extends_def\<close>)

lemma RegisterLocal_result:
  assumes "RegisterLocal h w this c n q P F = Inr (w', r)" "desc w this = Some c"
  shows "\<exists>fd c'. r = Some (length (FieldDescs w))
           \<and> FieldDescs w' = FieldDescs w @ [Some fd]
           \<and> QueryClass fd = q \<and> OuterClass fd = this
           \<and> Classes w' = Classes w
           \<and> (\<forall>d. d \<noteq> this \<longrightarrow> desc w' d = desc w d)
           \<and> desc w' this = Some c'
           \<and> Fields c' = TMap_Add n (length (FieldDescs w)) (Fields c)
           \<and> Struct c' = Struct c \<and> kept (c\<lparr>Fields := Fields c'\<rparr>) c'"
proof (cases P)
  case (Some p)
  let ?fd = "\<lparr>QueryClass = q, OuterClass = this, FieldIndex = int (length (Properties c)) + 1\<rparr>"
  let ?c = "c\<lparr>Fields := TMap_Add n (length (FieldDescs w)) (Fields c),
               Properties := Properties c @ [FPropertyDesc_Create p]\<rparr>"
  let ?w = "put_desc (w\<lparr>FieldDescs := FieldDescs w @ [Some ?fd],
                         FactoryLog := FactoryLog w @ [Call_FPropertyDesc_Create p]\<rparr>) this ?c"
  from assms(1) Some have w': "w' = ?w" and r: "r = Some (length (FieldDescs w))"
    by (simp_all add: RegisterLocal_def Let_def)
  have "desc ?w this = Some ?c" using assms(2) by (rule desc_alloc)
  moreover have "\<forall>d. d \<noteq> this \<longrightarrow> desc ?w d = desc w d"
    by (simp add: desc_put_desc)
  moreover have "kept (c\<lparr>Fields := Fields ?c\<rparr>) ?c" by (simp add: kept_def)
  ultimately show ?thesis
    unfolding w' r by (intro exI[of _ ?fd] exI[of _ ?c]) simp
next
  case None
  with assms(1) obtain f where f: "F = Some f"
    by (cases F) (simp_all add: RegisterLocal_def Let_def)
  let ?dp = "case FunctionCollection c of Some fc \<Rightarrow> FunctionCollection_Find h fc n | None \<Rightarrow> None"
  let ?fd = "\<lparr>QueryClass = q, OuterClass = this, FieldIndex = - (int (length (Functions c)) + 1)\<rparr>"
  let ?c = "c\<lparr>Fields := TMap_Add n (length (FieldDescs w)) (Fields c),
               Functions := Functions c @ [FFunctionDesc_new f ?dp]\<rparr>"
  let ?w = "put_desc (w\<lparr>FieldDescs := FieldDescs w @ [Some ?fd],
                         FactoryLog := FactoryLog w @ [Call_FFunctionDesc_new f ?dp]\<rparr>) this ?c"
  from assms(1) None f have w': "w' = ?w" and r: "r = Some (length (FieldDescs w))"
    by (simp_all add: RegisterLocal_def Let_def)
  have "desc ?w this = Some ?c" using assms(2) by (rule desc_alloc)
  moreover have "\<forall>d. d \<noteq> this \<longrightarrow> desc ?w d = desc w d"
    by (simp add: desc_put_desc)
  moreover have "kept (c\<lparr>Fields := Fields ?c\<rparr>) ?c" by (simp add: kept_def)
  ultimately show ?thesis
    unfolding w' r by (intro exI[of _ ?fd] exI[of _ ?c]) simp
qed

lemma effect_local:
  assumes "RegisterLocal h w this c n q P F = Inr (w', r)" "desc w this = Some c"
    "map_of (Fields c) n = None"
  shows "effect n r w w'"
proof -
  from RegisterLocal_result[OF assms(1,2)] obtain c' where
    r: "r = Some (length (FieldDescs w))"
    and cl: "Classes w' = Classes w"
    and other: "\<forall>d. d \<noteq> this \<longrightarrow> desc w' d = desc w d"
    and dt: "desc w' this = Some c'"
    and f: "Fields c' = TMap_Add n (length (FieldDescs w)) (Fields c)"
    and k: "kept (c\<lparr>Fields := Fields c'\<rparr>) c'"
    by blast
  have kc: "kept c c'"
    using k assms(3) by (auto simp: kept_def f map_of_TMap_Add)
  have "\<exists>c1. desc w' d = Some c1 \<and> kept c0 c1
          \<and> (r = None \<longrightarrow> Fields c1 = Fields c0 \<and> Properties c1 = Properties c0
                            \<and> Functions c1 = Functions c0)
          \<and> (\<forall>x. map_of (Fields c0) n = None \<longrightarrow> map_of (Fields c1) n = Some x \<longrightarrow> r = Some x)"
    if "desc w d = Some c0" for d c0
  proof (cases "d = this")
    case True
    with that assms(2) have "c0 = c" by simp
    with True dt kc r show ?thesis by (simp add: f map_of_TMap_Add)
  next
    case False
    with that other show ?thesis by (simp add: kept_refl r)
  qed
  then show ?thesis
    unfolding effect_def by (simp add: cl r)
qed

lemma RegisterField_effect:
  "RegisterField k h w this n q = Some (Inr (w', r)) \<Longrightarrow> effect n r w w'"
proof (induction k arbitrary: w this)
  case 0
  then show ?case by simp
next
  case (Suc k)
  from Suc.prems show ?case
  proof (cases rule: RegisterField_SucE)
    case (cached w1 c fr)
    then show ?thesis by (simp add: effect_Load)
  next
    case (absent w1 c S)
    then show ?thesis by (simp add: effect_Load)
  next
    case (redirect w1 c S Outer w2 a)
    have "effect n r w w1" using redirect(1) by (rule effect_Load)
    moreover have "effect n r w1 w2"
      using registry_extends(1)[OF redirect(8)] by (simp add: effect_extends)
    moreover have "effect n r w2 w'" using redirect(9) by (rule Suc.IH)
    ultimately show ?thesis by (blast intro: effect_trans)
  next
    case (local w1 c S)
    have "effect n r w w1" using local(1) by (rule effect_Load)
    moreover have "effect n r w1 w'" using local(7,2,3) by (rule effect_local)
    ultimately show ?thesis by (rule effect_trans)
  qed
qed

subsection \<open>Calling RegisterField again\<close>

lemma Load_idem:
  assumes "Load h w this = Inr w1"
  shows "Load h w1 this = Inr w1"
proof -
  from assms obtain c c' where l: "Load_desc h c = Inr c'" "desc w1 this = Some c'"
    by (rule Load_InrD)
  from Load_desc_Inr[OF l(1)] have "Struct c' \<noteq> None" by simp
  with l(2) show ?thesis by (rule Load_loaded)
qed

lemma Load_Struct:
  assumes "Load h w this = Inr w1" "desc w1 this = Some c"
  shows "Struct c \<noteq> None"
proof -
  from assms(1) obtain c0 c' where l: "Load_desc h c0 = Inr c'" "desc w1 this = Some c'"
    by (rule Load_InrD)
  from Load_desc_Inr[OF l(1)] l(2) assms(2) show ?thesis by simp
qed

lemma RegisterField_cached:
  assumes "Load h w this = Inr w1" "desc w1 this = Some c" "map_of (Fields c) n = Some fr"
  shows "RegisterField (Suc k) h w this n q = Some (Inr (w1, Some fr))"
  using assms by simp

lemma RegisterField_redirect:
  assumes "Load h w this = Inr w1" "desc w1 this = Some c" "map_of (Fields c) n = None"
    "Struct c = Some S" "FindMember h c S n \<noteq> (None, None)"
    "OuterStructOf h (fst (FindMember h c S n)) (snd (FindMember h c S n)) = Some Outer"
    "Outer \<noteq> S" "RegisterReflectedType k h w1 Outer = Some (w2, a)"
  shows "RegisterField (Suc k) h w this n q = RegisterField k h w2 a n q"
proof -
  from assms(5) have "\<not> (fst (FindMember h c S n) = None \<and> snd (FindMember h c S n) = None)"
    by (metis prod.collapse)
  with assms show ?thesis by (auto simp: Let_def)
qed

lemma FindMember_kept: "kept c c' \<Longrightarrow> FindMember h c' S n = FindMember h c S n"
  by (simp add: FindMember_def kept_def)

lemma RegisterField_idem:
  "RegisterField k h w this n q = Some (Inr (w', r)) \<Longrightarrow>
   RegisterField k h w' this n q = Some (Inr (w', r))"
proof (induction k arbitrary: w this)
  case 0
  then show ?case by simp
next
  case (Suc k)
  from Suc.prems show ?case
  proof (cases rule: RegisterField_SucE)
    case (cached w1 c fr)
    from Load_idem[OF cached(1)] cached(2,3) show ?thesis
      unfolding cached(4,5) by (rule RegisterField_cached)
  next
    case (absent w1 c S)
    from Load_idem[OF absent(1)] absent(2,3,4,5) show ?thesis
      unfolding absent(6,7) by (rule RegisterField_absent)
  next
    case (local w1 c S)
    from RegisterLocal_result[OF local(7,2)] obtain c' where
      r: "r = Some (length (FieldDescs w1))"
      and d: "desc w' this = Some c'"
      and f: "Fields c' = TMap_Add n (length (FieldDescs w1)) (Fields c)"
      and s: "Struct c' = Struct c"
      by blast
    have "Load h w' this = Inr w'"
      using d by (rule Load_loaded) (simp add: s local(4))
    moreover have "map_of (Fields c') n = Some (length (FieldDescs w1))"
      by (simp add: f map_of_TMap_Add)
    ultimately show ?thesis
      unfolding r using d by (intro RegisterField_cached)
  next
    case (redirect w1 c S Outer w2 a)
    from registry_extends(1)[OF redirect(8)] have e12: "extends w1 w2"
      and a2: "Classes w2 Outer = Some a"
      by simp_all
    have e2: "effect n r w2 w'" using redirect(9) by (rule RegisterField_effect)
    have e1: "effect n r w1 w'"
      using effect_extends[OF e12] e2 by (rule effect_trans)
    from e1 redirect(2) obtain c' where
      d: "desc w' this = Some c'" and k: "kept c c'"
      and x: "\<forall>x. map_of (Fields c) n = None \<longrightarrow> map_of (Fields c') n = Some x \<longrightarrow> r = Some x"
      unfolding effect_def by blast
    from k redirect(4) have s: "Struct c' = Some S" by (simp add: kept_def)
    have l: "Load h w' this = Inr w'"
      using d by (rule Load_loaded) (simp add: s)
    show ?thesis
    proof (cases "map_of (Fields c') n")
      case (Some y)
      with x redirect(3) have "r = Some y" by simp
      with l d Some show ?thesis by (simp only: RegisterField_cached)
    next
      case None
      from redirect(8) obtain k' where k': "k = Suc k'" by (cases k) simp_all
      from e2 a2 have "Classes w' Outer = Some a" by (simp add: effect_def)
      then have reg: "RegisterReflectedType k h w' Outer = Some (w', a)"
        by (simp add: k')
      have m: "FindMember h c' S n = FindMember h c S n" using k by (rule FindMember_kept)
      have "RegisterField (Suc k) h w' this n q = RegisterField k h w' a n q"
        using l d None s redirect(5,6,7) reg unfolding m[symmetric]
        by (rule RegisterField_redirect)
      also have "\<dots> = Some (Inr (w', r))" using redirect(9) by (rule Suc.IH)
      finally show ?thesis .
    qed
  qed
qed

text \<open>
  C2.  When a call of \<open>RegisterField\<close> has returned \<open>r\<close> and left the world \<open>w1\<close>
  (so the type is loaded), the same call made again in \<open>w1\<close> returns the same \<open>r\<close>,
  the same pointer or null again, and leaves \<open>w1\<close> as it is: no \<open>Properties\<close> or
  \<open>Functions\<close> of any descriptor has a new entry, no field descriptor is made, and
  \<open>FactoryLog\<close> is the same, so no factory is called.
\<close>

theorem RegisterField_idempotent:
  assumes "RegisterField k h w this n q = Some (Inr (w1, r))"
  shows "RegisterField k h w1 this n q = Some (Inr (w1, r))"
  using assms by (rule RegisterField_idem)

text \<open>
  Witness: \<^verbatim>\<open>Hp\<close> asked of class \<open>3\<close> twice.  The first call registers it on the
  descriptor of class \<open>1\<close> and returns the field descriptor \<open>0\<close>; so does the second,
  in the same world.
\<close>

theorem RegisterField_idempotent_witness:
  "RegisterField 5 host0 worldC 2 ''Hp'' 2 = Some (Inr (worldHp, Some 0))
   \<and> RegisterField 5 host0 worldHp 2 ''Hp'' 2 = Some (Inr (worldHp, Some 0))"
  using worldHp_run RegisterField_idempotent[OF worldHp_run] by simp

lemma desc_unchanged:
  assumes "kept c c'" "Struct c \<noteq> None" "Fields c' = Fields c" "Properties c' = Properties c"
    "Functions c' = Functions c"
  shows "c' = c"
  using assms by (intro FClassDesc.equality) (simp_all add: kept_def)

lemma RegisterField_absent_not_cached:
  assumes "RegisterField k h w this n q = Some (Inr (w', None))"
  shows "\<exists>c' S. desc w' this = Some c' \<and> map_of (Fields c') n = None \<and> Struct c' = Some S"
proof -
  from assms obtain k' where k: "k = Suc k'" by (cases k) simp_all
  from assms[unfolded k] show ?thesis
  proof (cases rule: RegisterField_SucE)
    case (cached w1 c fr)
    then show ?thesis by simp
  next
    case (absent w1 c S)
    then show ?thesis by simp
  next
    case (redirect w1 c S Outer w2 a)
    have "effect n None w1 w2"
      using registry_extends(1)[OF redirect(8)] by (simp add: effect_extends)
    moreover have "effect n None w2 w'" using redirect(9) by (rule RegisterField_effect)
    ultimately have "effect n None w1 w'" by (rule effect_trans)
    with redirect(2) obtain c' where "desc w' this = Some c'" "kept c c'" "Fields c' = Fields c"
      unfolding effect_def by blast
    with redirect(3,4) show ?thesis by (simp add: kept_def)
  next
    case (local w1 c S)
    from RegisterLocal_result[OF local(7,2)] show ?thesis by simp
  qed
qed

lemma RegisterField_other_host:
  fixes h :: host
  assumes "desc w this = Some c" "map_of (Fields c) n = None" "Struct c = Some S"
  shows "\<exists>h' w' fr. RegisterField (Suc 0) h' w this n q = Some (Inr (w', Some fr))"
proof -
  let ?h = "h\<lparr>FindPropertyByName := \<lambda>T m. Some 0, GetPropertyOuter := \<lambda>p. 0,
               Cast_UStruct := \<lambda>ob. Some S\<rparr>"
  have l: "Load ?h w this = Inr w"
    using assms(1) by (rule Load_loaded) (simp add: assms(3))
  have m: "FindMember ?h c S n = (Some 0, None)"
    by (simp add: FindMember_def)
  have o: "OuterStructOf ?h (Some 0) None = Some S"
    by (simp add: OuterStructOf_def)
  from RegisterField_registers_locally[OF l assms(1,2,3) m _ o, of 0 q]
  show ?thesis by blast
qed

text \<open>
  C9.  When \<open>RegisterField\<close> returns null, no field descriptor has been made or
  deleted and no factory has been called; every descriptor has the \<open>Fields\<close>,
  \<open>Properties\<close> and \<open>Functions\<close> it had, and one whose type was loaded is wholly
  unchanged; a descriptor the registry has made on the way has none.  The miss is not
  cached: \<open>Fields\<close> of this descriptor has no entry for the name.  So the same call made
  again returns null again, from the same host; and there are hosts (the live type having
  changed) from which the next call for this name succeeds.
\<close>

theorem RegisterField_absent_leaves_state:
  assumes "RegisterField k h w this n q = Some (Inr (w', None))"
  shows "FieldDescs w' = FieldDescs w \<and> FactoryLog w' = FactoryLog w
         \<and> (\<forall>d c. desc w d = Some c \<longrightarrow>
               (\<exists>c'. desc w' d = Some c' \<and> Fields c' = Fields c \<and> Properties c' = Properties c
                  \<and> Functions c' = Functions c \<and> (Struct c \<noteq> None \<longrightarrow> c' = c)))
         \<and> (\<forall>d c'. desc w d = None \<longrightarrow> desc w' d = Some c' \<longrightarrow>
               Fields c' = [] \<and> Properties c' = [] \<and> Functions c' = [])
         \<and> (\<exists>c'. desc w' this = Some c' \<and> map_of (Fields c') n = None)
         \<and> RegisterField k h w' this n q = Some (Inr (w', None))
         \<and> (\<exists>h' w'' fr. RegisterField (Suc 0) h' w' this n q = Some (Inr (w'', Some fr)))"
proof -
  have e: "effect n None w w'" using assms by (rule RegisterField_effect)
  have 1: "FieldDescs w' = FieldDescs w" "FactoryLog w' = FactoryLog w"
    using e by (simp_all add: effect_def)
  have 2: "\<exists>c'. desc w' d = Some c' \<and> Fields c' = Fields c \<and> Properties c' = Properties c
                  \<and> Functions c' = Functions c \<and> (Struct c \<noteq> None \<longrightarrow> c' = c)"
    if "desc w d = Some c" for d c
  proof -
    from e that obtain c' where c': "desc w' d = Some c'" "kept c c'" "Fields c' = Fields c"
      "Properties c' = Properties c" "Functions c' = Functions c"
      unfolding effect_def by blast
    then have "Struct c \<noteq> None \<longrightarrow> c' = c" by (simp add: desc_unchanged)
    with c' show ?thesis by simp
  qed
  have 3: "Fields c' = [] \<and> Properties c' = [] \<and> Functions c' = []"
    if "desc w d = None" "desc w' d = Some c'" for d c'
  proof -
    from e that have "fresh_desc c'" unfolding effect_def by blast
    then show ?thesis by (simp add: fresh_desc_def)
  qed
  from RegisterField_absent_not_cached[OF assms] obtain c' S where
    4: "desc w' this = Some c'" "map_of (Fields c') n = None" "Struct c' = Some S"
    by blast
  have 5: "RegisterField k h w' this n q = Some (Inr (w', None))"
    using assms by (rule RegisterField_idem)
  have 6: "\<exists>h' w'' fr. RegisterField (Suc 0) h' w' this n q = Some (Inr (w'', Some fr))"
    using 4 by (rule RegisterField_other_host)
  from 1 2 3 4(1,2) 5 6 show ?thesis by blast
qed

text \<open>
  Witness: class \<open>3\<close> has no member \<^verbatim>\<open>Armor\<close>.  The call returns null in the world
  it started from, where the descriptor still has no field.
\<close>

theorem RegisterField_absent_leaves_state_witness:
  "RegisterField (Suc 0) host0 worldC 2 ''Armor'' 2 = Some (Inr (worldC, None))
   \<and> (\<exists>c'. desc worldC 2 = Some c' \<and> map_of (Fields c') ''Armor'' = None)
   \<and> (\<exists>h' w'' fr. RegisterField (Suc 0) h' worldC 2 ''Armor'' 2 = Some (Inr (w'', Some fr)))"
proof -
  have r: "RegisterField (Suc 0) host0 worldC 2 ''Armor'' 2 = Some (Inr (worldC, None))"
    by (simp add: run_simps worldC_def)
  from RegisterField_absent_leaves_state[OF r] r show ?thesis by blast
qed

subsection \<open>Every field is declared on the type that holds it\<close>

lemma deref_update_None: "deref (H[a := None]) b = (if b = a then None else deref H b)"
  by (simp add: deref_def)

lemma deref_delete_fields:
  "deref (delete_fields as H) b = (if b \<in> set as then None else deref H b)"
  unfolding delete_fields_def
  by (induction as arbitrary: H) (simp_all add: deref_update_None)

lemma set_TMap_Add: "set (TMap_Add k v m) \<subseteq> insert (k, v) (set m)"
  by (induction m) (auto split: if_splits)

lemma FindMember_flags:
  "bIsClass c' = bIsClass c \<Longrightarrow> bIsScriptStruct c' = bIsScriptStruct c \<Longrightarrow>
   FindMember h c' S n = FindMember h c S n"
  by (simp add: FindMember_def)

lemma declared_here_mono:
  assumes "declared_here h c S n i"
    and "bIsClass c' = bIsClass c" "bIsScriptStruct c' = bIsScriptStruct c"
    and "Properties c' = Properties c @ ps" "Functions c' = Functions c @ fs"
  shows "declared_here h c' S n i"
proof -
  have m: "FindMember h c' S n = FindMember h c S n"
    using assms(2,3) by (rule FindMember_flags)
  obtain P F where pf: "FindMember h c S n = (P, F)" by (cases "FindMember h c S n")
  show ?thesis
  proof (cases P)
    case (Some p)
    with assms(1) pf show ?thesis
      by (simp add: declared_here_def m assms(4) nth_append)
  next
    case None
    with assms(1) pf obtain f where "F = Some f"
      by (cases F) (simp_all add: declared_here_def)
    with assms(1) pf None show ?thesis
      by (simp add: declared_here_def m assms(5) nth_append)
  qed
qed

lemma inv_entry:
  assumes "fields_declared_here h w" "desc w d = Some c" "(n, fr) \<in> set (Fields c)"
  obtains fd S where "field w fr = Some fd" "OuterClass fd = d" "Struct c = Some S"
    "declared_here h c S n (FieldIndex fd)"
  using assms unfolding fields_declared_here_def by blast

lemma inv_unloaded_empty:
  assumes "fields_declared_here h w" "desc w d = Some c" "Struct c = None"
  shows "Fields c = []"
proof (cases "Fields c")
  case Nil
  then show ?thesis .
next
  case (Cons e es)
  obtain n fr where "e = (n, fr)" by (cases e)
  with Cons have "(n, fr) \<in> set (Fields c)" by simp
  with assms(1,2) obtain S where "Struct c = Some S" by (rule inv_entry)
  with assms(3) show ?thesis by simp
qed

lemma inv_world0: "fields_declared_here h world0"
  by (simp add: fields_declared_here_def world0_def desc_def deref_def)

lemma inv_put_same_fields:
  assumes inv: "fields_declared_here h w" and d: "desc w this = Some c"
    and c': "Fields c' = Fields c" "Struct c \<noteq> None \<longrightarrow> Struct c' = Struct c"
      "bIsClass c' = bIsClass c" "bIsScriptStruct c' = bIsScriptStruct c"
      "Properties c' = Properties c" "Functions c' = Functions c"
  shows "fields_declared_here h (put_desc w this c')"
  unfolding fields_declared_here_def
proof (intro allI impI)
  fix d c0 n fr
  assume a: "desc (put_desc w this c') d = Some c0" "(n, fr) \<in> set (Fields c0)"
  have lt: "this < length (Descs w)" using d by (rule desc_Some_less)
  show "\<exists>fd S. field (put_desc w this c') fr = Some fd \<and> OuterClass fd = d \<and> Struct c0 = Some S
           \<and> declared_here h c0 S n (FieldIndex fd)"
  proof (cases "d = this")
    case True
    with a(1) lt have c0: "c0 = c'" by (simp add: desc_put_desc)
    with a(2) c'(1) have "(n, fr) \<in> set (Fields c)" by simp
    with inv d obtain fd S where e: "field w fr = Some fd" "OuterClass fd = this" "Struct c = Some S"
      "declared_here h c S n (FieldIndex fd)"
      by (rule inv_entry)
    have "declared_here h c' S n (FieldIndex fd)"
      using e(4) c'(3,4) by (rule declared_here_mono) (simp_all add: c'(5,6))
    with e c'(2) True c0 show ?thesis by simp
  next
    case False
    with a(1) have "desc w d = Some c0" by (simp add: desc_put_desc)
    with inv obtain fd S where "field w fr = Some fd" "OuterClass fd = d" "Struct c0 = Some S"
      "declared_here h c0 S n (FieldIndex fd)"
      using a(2) by (rule inv_entry)
    then show ?thesis by simp
  qed
qed

lemma inv_Load:
  assumes "fields_declared_here h w" "Load h w this = Inr w1"
  shows "fields_declared_here h w1"
proof -
  from assms(2) obtain c c' where l: "desc w this = Some c" "Load_desc h c = Inr c'"
    "w1 = put_desc w this c'"
    by (rule Load_InrD)
  from l(2) show ?thesis
  proof (cases rule: Load_desc_cases)
    case loaded
    with l(1,3) have "w1 = w" by (simp add: put_desc_same)
    with assms(1) show ?thesis by simp
  next
    case (found s)
    show ?thesis
      unfolding l(3) using assms(1) l(1)
      by (rule inv_put_same_fields) (simp_all add: found)
  qed
qed

lemma inv_extends:
  assumes "fields_declared_here h w" "extends w w'"
  shows "fields_declared_here h w'"
  unfolding fields_declared_here_def
proof (intro allI impI)
  fix d c n fr
  assume a: "desc w' d = Some c" "(n, fr) \<in> set (Fields c)"
  have f: "field w' fr = field w fr" for fr
    using assms(2) by (simp add: field_def extends_def)
  show "\<exists>fd S. field w' fr = Some fd \<and> OuterClass fd = d \<and> Struct c = Some S
           \<and> declared_here h c S n (FieldIndex fd)"
  proof (cases "desc w d")
    case None
    have "fresh_desc c" using assms(2) None a(1) by (rule extends_new)
    with a(2) show ?thesis by (simp add: fresh_desc_def)
  next
    case (Some c0)
    with assms(2) have "desc w' d = Some c0" by (rule extends_desc)
    with a(1) have "c0 = c" by simp
    with Some assms(1) a(2) obtain fd S where "field w fr = Some fd" "OuterClass fd = d"
      "Struct c = Some S" "declared_here h c S n (FieldIndex fd)"
      by (auto elim: inv_entry)
    then show ?thesis by (simp add: f)
  qed
qed

lemma inv_UnLoad:
  assumes inv: "fields_declared_here h w" and u: "UnLoad w this = Inr w'"
  shows "fields_declared_here h w'"
  using u
proof (cases rule: UnLoad_InrD)
  case (noop c)
  with inv show ?thesis by simp
next
  case (drop c)
  show ?thesis
    unfolding fields_declared_here_def
  proof (intro allI impI)
    fix d c0 n fr
    assume a: "desc w' d = Some c0" "(n, fr) \<in> set (Fields c0)"
    from a(1) have d: "desc w d = Some c0" "d \<noteq> this"
      using a(2) by (auto simp: drop(3) desc_unloaded[OF drop(1)] split: if_splits)
    from inv d(1) a(2) obtain fd S where e: "field w fr = Some fd" "OuterClass fd = d"
      "Struct c0 = Some S" "declared_here h c0 S n (FieldIndex fd)"
      by (rule inv_entry)
    have "fr \<notin> set (map snd (Fields c))"
    proof
      assume "fr \<in> set (map snd (Fields c))"
      then obtain m where "(m, fr) \<in> set (Fields c)" by auto
      with inv drop(1) obtain fd' where "field w fr = Some fd'" "OuterClass fd' = this"
        by (rule inv_entry)
      with e(1,2) d(2) show False by simp
    qed
    then have "field w' fr = field w fr"
      by (simp add: drop(3) unloaded_def field_def deref_delete_fields)
    with e show "\<exists>fd S. field w' fr = Some fd \<and> OuterClass fd = d \<and> Struct c0 = Some S
           \<and> declared_here h c0 S n (FieldIndex fd)"
      by simp
  qed
qed

lemma inv_register:
  assumes inv: "fields_declared_here h w" and d: "desc w this = Some c" and S: "Struct c = Some S"
    and c': "Struct c' = Some S" "bIsClass c' = bIsClass c" "bIsScriptStruct c' = bIsScriptStruct c"
      "set (Fields c') \<subseteq> insert (n, length (FieldDescs w)) (set (Fields c))"
      "Properties c' = Properties c @ ps" "Functions c' = Functions c @ fs"
    and fd: "OuterClass fd = this" "declared_here h c' S n (FieldIndex fd)"
  shows "fields_declared_here h
           (put_desc (w\<lparr>FieldDescs := FieldDescs w @ [Some fd], FactoryLog := l\<rparr>) this c')"
    (is "fields_declared_here h ?w")
  unfolding fields_declared_here_def
proof (intro allI impI)
  fix d0 c0 n0 fr0
  assume a: "desc ?w d0 = Some c0" "(n0, fr0) \<in> set (Fields c0)"
  have lt: "this < length (Descs w)" using d by (rule desc_Some_less)
  have old: "field ?w a = Some x" if "field w a = Some x" for a x
    using that by (auto simp: field_def deref_def nth_append split: if_splits)
  show "\<exists>fd S. field ?w fr0 = Some fd \<and> OuterClass fd = d0 \<and> Struct c0 = Some S
           \<and> declared_here h c0 S n0 (FieldIndex fd)"
  proof (cases "d0 = this")
    case False
    with a(1) have "desc w d0 = Some c0" by (simp add: desc_put_desc)
    with inv obtain fd0 S0 where "field w fr0 = Some fd0" "OuterClass fd0 = d0" "Struct c0 = Some S0"
      "declared_here h c0 S0 n0 (FieldIndex fd0)"
      using a(2) by (rule inv_entry)
    with old show ?thesis by blast
  next
    case True
    with a(1) lt have c0: "c0 = c'" by (simp add: desc_put_desc)
    from a(2) have in': "(n0, fr0) \<in> set (Fields c')" unfolding c0 .
    show ?thesis
    proof (cases "(n0, fr0) \<in> set (Fields c)")
      case True
      with inv d obtain fd0 S0 where e: "field w fr0 = Some fd0" "OuterClass fd0 = this"
        "Struct c = Some S0" "declared_here h c S0 n0 (FieldIndex fd0)"
        by (rule inv_entry)
      from e(3) S have "S0 = S" by simp
      with e(4) have "declared_here h c S n0 (FieldIndex fd0)" by simp
      then have dh: "declared_here h c' S n0 (FieldIndex fd0)"
        using c'(2,3,5,6) by (rule declared_here_mono)
      from e(1) have "field ?w fr0 = Some fd0" by (rule old)
      with e(2) c'(1) dh show ?thesis
        unfolding c0 \<open>d0 = this\<close> by blast
    next
      case False
      with in' c'(4) have "(n0, fr0) = (n, length (FieldDescs w))" by blast
      then have eq: "n0 = n" "fr0 = length (FieldDescs w)" by simp_all
      have "field ?w (length (FieldDescs w)) = Some fd"
        by (simp add: deref_append)
      with fd c'(1) show ?thesis
        unfolding c0 \<open>d0 = this\<close> eq by blast
    qed
  qed
qed

lemma inv_local:
  assumes inv: "fields_declared_here h w" and d: "desc w this = Some c" and S: "Struct c = Some S"
    and o: "OuterStructOf h (fst (FindMember h c S n)) (snd (FindMember h c S n)) = Some S"
    and r: "RegisterLocal h w this c n q (fst (FindMember h c S n)) (snd (FindMember h c S n)) = Inr (w', r)"
  shows "fields_declared_here h w'"
proof -
  obtain P F where pf: "FindMember h c S n = (P, F)" by (cases "FindMember h c S n")
  let ?fr = "length (FieldDescs w)"
  show ?thesis
  proof (cases P)
    case (Some p)
    let ?fd = "\<lparr>QueryClass = q, OuterClass = this, FieldIndex = int (length (Properties c)) + 1\<rparr>"
    let ?c = "c\<lparr>Fields := TMap_Add n ?fr (Fields c),
                 Properties := Properties c @ [FPropertyDesc_Create p]\<rparr>"
    from r pf Some have w': "w' = put_desc (w\<lparr>FieldDescs := FieldDescs w @ [Some ?fd],
        FactoryLog := FactoryLog w @ [Call_FPropertyDesc_Create p]\<rparr>) this ?c"
      by (simp add: RegisterLocal_def Let_def)
    have "FindMember h ?c S n = (Some p, F)"
      using pf Some by (simp add: FindMember_def)
    moreover have "Cast_UStruct h (GetPropertyOuter h p) = Some S"
      using o pf Some by (simp add: OuterStructOf_def)
    ultimately have dh: "declared_here h ?c S n (FieldIndex ?fd)"
      by (simp add: declared_here_def)
    show ?thesis
      unfolding w' using inv d S
    proof (rule inv_register)
      show "set (Fields ?c) \<subseteq> insert (n, ?fr) (set (Fields c))"
        by (simp add: set_TMap_Add)
      show "Properties ?c = Properties c @ [FPropertyDesc_Create p]" by simp
      show "Functions ?c = Functions c @ []" by simp
      show "declared_here h ?c S n (FieldIndex ?fd)" by (rule dh)
    qed (simp_all add: S)
  next
    case None
    with o pf obtain f where f: "F = Some f"
      by (cases F) (simp_all add: OuterStructOf_def)
    let ?dp = "case FunctionCollection c of Some fc \<Rightarrow> FunctionCollection_Find h fc n | None \<Rightarrow> None"
    let ?fd = "\<lparr>QueryClass = q, OuterClass = this, FieldIndex = - (int (length (Functions c)) + 1)\<rparr>"
    let ?c = "c\<lparr>Fields := TMap_Add n ?fr (Fields c),
                 Functions := Functions c @ [FFunctionDesc_new f ?dp]\<rparr>"
    from r pf None f have w': "w' = put_desc (w\<lparr>FieldDescs := FieldDescs w @ [Some ?fd],
        FactoryLog := FactoryLog w @ [Call_FFunctionDesc_new f ?dp]\<rparr>) this ?c"
      by (simp add: RegisterLocal_def Let_def)
    have "FindMember h ?c S n = (None, Some f)"
      using pf None f by (simp add: FindMember_def)
    moreover have "Cast_UStruct h (GetOuter h f) = Some S"
      using o pf None f by (simp add: OuterStructOf_def)
    ultimately have dh: "declared_here h ?c S n (FieldIndex ?fd)"
      by (simp add: declared_here_def)
    show ?thesis
      unfolding w' using inv d S
    proof (rule inv_register)
      show "set (Fields ?c) \<subseteq> insert (n, ?fr) (set (Fields c))"
        by (simp add: set_TMap_Add)
      show "Properties ?c = Properties c @ []" by simp
      show "Functions ?c = Functions c @ [FFunctionDesc_new f ?dp]" by simp
      show "declared_here h ?c S n (FieldIndex ?fd)" by (rule dh)
    qed (simp_all add: S)
  qed
qed

lemma inv_RegisterField:
  "fields_declared_here h w \<Longrightarrow> RegisterField k h w this n q = Some (Inr (w', r)) \<Longrightarrow>
   fields_declared_here h w'"
proof (induction k arbitrary: w this)
  case 0
  then show ?case by simp
next
  case (Suc k)
  from Suc.prems(2) show ?case
  proof (cases rule: RegisterField_SucE)
    case (cached w1 c fr)
    with Suc.prems(1) show ?thesis by (simp add: inv_Load)
  next
    case (absent w1 c S)
    with Suc.prems(1) show ?thesis by (simp add: inv_Load)
  next
    case (redirect w1 c S Outer w2 a)
    have "fields_declared_here h w1" using Suc.prems(1) redirect(1) by (rule inv_Load)
    then have "fields_declared_here h w2"
      using registry_extends(1)[OF redirect(8)] by (simp add: inv_extends)
    then show ?thesis using redirect(9) by (rule Suc.IH)
  next
    case (local w1 c S)
    have "fields_declared_here h w1" using Suc.prems(1) local(1) by (rule inv_Load)
    then show ?thesis using local(2,4,6,7) by (rule inv_local)
  qed
qed

lemma inv_RefCount:
  assumes "fields_declared_here h w" "desc w this = Some c"
  shows "fields_declared_here h (put_desc w this (c\<lparr>RefCount := x\<rparr>))"
  using assms by (rule inv_put_same_fields) simp_all

lemma reachable_inv: "reachable h w \<Longrightarrow> fields_declared_here h w"
proof (induction rule: reachable.induct)
  case start
  show ?case by (rule inv_world0)
next
  case (by_RegisterReflectedType w k T w' d)
  from registry_extends(1)[OF by_RegisterReflectedType(2)] by_RegisterReflectedType(3)
  show ?case by (simp add: inv_extends)
next
  case (by_RegisterField w k this n q w' r)
  then show ?case by (simp add: inv_RegisterField)
next
  case (by_FindField w this n w' r)
  from by_FindField(2) obtain w1 where "Load h w this = Inr w1" "w' = w1"
    by (auto simp: FindField_def split: sum.splits option.splits)
  with by_FindField(3) show ?case by (simp add: inv_Load)
next
  case (by_Load w this w')
  then show ?case by (simp add: inv_Load)
next
  case (by_UnLoad w this w')
  then show ?case by (simp add: inv_UnLoad)
next
  case (by_AddRef w this w')
  from by_AddRef(2) obtain c where "desc w this = Some c"
    "w' = put_desc w this (c\<lparr>RefCount := RefCount c + 1\<rparr>)"
    by (auto simp: AddRef_def split: option.splits)
  with by_AddRef(3) show ?case by (simp add: inv_RefCount)
next
  case (by_SubRef w this w')
  from by_SubRef(2) obtain c where "desc w this = Some c"
    "w' = put_desc w this (c\<lparr>RefCount := RefCount c - 1\<rparr>)"
    by (auto simp: SubRef_def split: option.splits)
  with by_SubRef(3) show ?case by (simp add: inv_RefCount)
qed

subsection \<open>Redirection to the declaring class\<close>

lemma declared_here_owner:
  assumes "declared_here h c S n i"
  shows "OuterStructOf h (fst (FindMember h c S n)) (snd (FindMember h c S n)) = Some S"
proof -
  obtain P F where pf: "FindMember h c S n = (P, F)" by (cases "FindMember h c S n")
  show ?thesis
  proof (cases P)
    case (Some p)
    with assms pf show ?thesis by (simp add: declared_here_def OuterStructOf_def)
  next
    case None
    with assms pf obtain f where "F = Some f"
      by (cases F) (simp_all add: declared_here_def)
    with assms pf None show ?thesis by (simp add: declared_here_def OuterStructOf_def)
  qed
qed

lemma inv_not_inherited:
  assumes "fields_declared_here h w" "desc w d = Some c" "Struct c = Some S"
    and "OuterStructOf h (fst (FindMember h c S n)) (snd (FindMember h c S n)) = Some S'" "S' \<noteq> S"
  shows "map_of (Fields c) n = None"
proof (cases "map_of (Fields c) n")
  case None
  then show ?thesis .
next
  case (Some fr)
  then have "(n, fr) \<in> set (Fields c)" by (rule map_of_SomeD)
  with assms(1,2) obtain fd S0 where e: "field w fr = Some fd" "OuterClass fd = d"
    "Struct c = Some S0" "declared_here h c S0 n (FieldIndex fd)"
    by (rule inv_entry)
  from e(3,4) assms(3) have "declared_here h c S n (FieldIndex fd)" by simp
  from declared_here_owner[OF this] assms(4,5) show ?thesis by simp
qed

lemma Load_other:
  assumes "Load h w this = Inr w1" "d \<noteq> this"
  shows "desc w1 d = desc w d"
proof -
  from assms(1) obtain c' where "w1 = put_desc w this c'" by (rule Load_InrD)
  with assms(2) show ?thesis by (simp add: desc_put_desc)
qed

lemma Load_frame:
  assumes "Load h w this = Inr w1"
  shows "Classes w1 = Classes w" "field w1 a = field w a"
proof -
  from assms(1) obtain c' where "w1 = put_desc w this c'" by (rule Load_InrD)
  then show "Classes w1 = Classes w" "field w1 a = field w a" by simp_all
qed

lemma OuterStructOf_Some_found:
  "OuterStructOf h P F = Some S \<Longrightarrow> P \<noteq> None \<or> F \<noteq> None"
  by (cases P; cases F) (simp_all add: OuterStructOf_def)

lemma redirect_to_declaring:
  assumes reach: "reachable h w"
    and D: "Load h w D = Inr w1" "desc w1 D = Some cD" "Struct cD = Some SD"
    and found: "OuterStructOf h (fst (FindMember h cD SD m)) (snd (FindMember h cD SD m)) = Some SA"
      "SA \<noteq> SD"
    and A: "Classes w SA = Some A" "A \<noteq> D" "Load h w1 A = Inr w2" "desc w2 A = Some cA"
      "Struct cA = Some SA"
    and declared: "OuterStructOf h (fst (FindMember h cA SA m)) (snd (FindMember h cA SA m)) = Some SA"
  shows "\<exists>w' fr fd cA' cD'.
            RegisterField (Suc (Suc k)) h w D m D = Some (Inr (w', Some fr))
            \<and> desc w' A = Some cA' \<and> map_of (Fields cA') m = Some fr
            \<and> desc w' D = Some cD' \<and> map_of (Fields cD') m = None
            \<and> field w' fr = Some fd \<and> OuterClass fd = A
            \<and> (map_of (Fields cA) m = None \<longrightarrow> QueryClass fd = D)
            \<and> (\<forall>fr0. map_of (Fields cA) m = Some fr0 \<longrightarrow> fr = fr0 \<and> field w fr0 = Some fd)
            \<and> fields_declared_here h w'"
proof -
  have inv: "fields_declared_here h w" using reach by (rule reachable_inv)
  have inv1: "fields_declared_here h w1" using inv D(1) by (rule inv_Load)
  have inv2: "fields_declared_here h w2" using inv1 A(3) by (rule inv_Load)
  have notD: "map_of (Fields cD) m = None"
    using inv1 D(2,3) found by (rule inv_not_inherited)
  have nn: "FindMember h cD SD m \<noteq> (None, None)"
    using OuterStructOf_Some_found[OF found(1)] by auto
  have "Classes w1 SA = Some A" using A(1) Load_frame(1)[OF D(1)] by simp
  then have reg: "RegisterReflectedType (Suc k) h w1 SA = Some (w1, A)" by simp
  have step: "RegisterField (Suc (Suc k)) h w D m D = RegisterField (Suc k) h w1 A m D"
    using D(1,2) notD D(3) nn found reg by (rule RegisterField_redirect)
  have dD: "desc w2 D = Some cD"
    using Load_other[OF A(3), of D] A(2) D(2) by simp
  have fld: "field w2 a = field w a" for a
    using Load_frame(2)[OF A(3)] Load_frame(2)[OF D(1)] by simp
  show ?thesis
  proof (cases "map_of (Fields cA) m")
    case (Some fr0)
    have run: "RegisterField (Suc (Suc k)) h w D m D = Some (Inr (w2, Some fr0))"
      unfolding step using A(3,4) Some by (rule RegisterField_cached)
    from Some have "(m, fr0) \<in> set (Fields cA)" by (rule map_of_SomeD)
    with inv2 A(4) obtain fd S0 where fd: "field w2 fr0 = Some fd" "OuterClass fd = A"
      "Struct cA = Some S0" "declared_here h cA S0 m (FieldIndex fd)"
      by (rule inv_entry)
    from fd(1) have "field w fr0 = Some fd" by (simp add: fld)
    with run A(4) Some dD notD fd(1,2) inv2 show ?thesis by simp
  next
    case None
    obtain P F where pf: "FindMember h cA SA m = (P, F)" by (cases "FindMember h cA SA m")
    with declared have o: "OuterStructOf h P F = Some SA" by simp
    then have pfn: "P \<noteq> None \<or> F \<noteq> None" by (rule OuterStructOf_Some_found)
    have loc: "RegisterField (Suc k) h w1 A m D = Some (RegisterLocal h w2 A cA m D P F)"
      using A(3,4) None A(5) pf pfn o by (rule RegisterField_local)
    from RegisterField_registers_locally[OF A(3,4) None A(5) pf pfn o, of k D]
    obtain w' fr where res: "RegisterField (Suc k) h w1 A m D = Some (Inr (w', Some fr))"
      by blast
    with loc have rl: "RegisterLocal h w2 A cA m D P F = Inr (w', Some fr)" by simp
    from RegisterLocal_result[OF rl A(4)] obtain fd cA' where
      fr: "fr = length (FieldDescs w2)"
      and heap: "FieldDescs w' = FieldDescs w2 @ [Some fd]"
      and fd: "QueryClass fd = D" "OuterClass fd = A"
      and other: "\<forall>d. d \<noteq> A \<longrightarrow> desc w' d = desc w2 d"
      and dA: "desc w' A = Some cA'"
      and fA: "Fields cA' = TMap_Add m (length (FieldDescs w2)) (Fields cA)"
      by auto
    have run: "RegisterField (Suc (Suc k)) h w D m D = Some (Inr (w', Some fr))"
      unfolding step by (rule res)
    have "reachable h w'" using reach run by (rule reachable.by_RegisterField)
    then have inv': "fields_declared_here h w'" by (rule reachable_inv)
    have "desc w' D = Some cD" using other A(2) dD by simp
    moreover have "map_of (Fields cA') m = Some fr" by (simp add: fA fr map_of_TMap_Add)
    moreover have "field w' fr = Some fd" by (simp add: field_def heap fr deref_append)
    ultimately show ?thesis using run dA notD fd None inv' by simp
  qed
qed

text \<open>
  C1, as amended.  In a reachable world let \<open>D\<close> be a descriptor, loaded by \<open>Load\<close> with
  the type \<open>SD\<close>, on which the name \<open>m\<close> is the name of a member owned by another type
  \<open>SA\<close>; let \<open>A\<close>, a different descriptor, be the registry's descriptor of \<open>SA\<close>, loaded
  with \<open>SA\<close>, and let \<open>SA\<close> own the member that \<open>m\<close> names on it.  Then
  \<open>RegisterField m D\<close> on \<open>D\<close> returns, with any fuel from two on, a field descriptor
  that is the entry for \<open>m\<close> in the \<open>Fields\<close> of \<open>A\<close>, while the \<open>Fields\<close> of \<open>D\<close> has no
  entry for \<open>m\<close>; its \<open>OuterClass\<close> is \<open>A\<close>.  Its \<open>QueryClass\<close> is \<open>D\<close> when \<open>A\<close> had no
  entry for \<open>m\<close> before the call; when it had one, that entry is returned as it was, with
  the \<open>QueryClass\<close> of the call that made it.  And in every reachable world every entry
  of every \<open>Fields\<close> is for a member declared on the type of the descriptor that holds it.
\<close>

theorem RegisterField_redirects_to_declaring_class:
  assumes "reachable h w"
    and "Load h w D = Inr w1" "desc w1 D = Some cD" "Struct cD = Some SD"
    and "OuterStructOf h (fst (FindMember h cD SD m)) (snd (FindMember h cD SD m)) = Some SA"
      "SA \<noteq> SD"
    and "Classes w SA = Some A" "A \<noteq> D" "Load h w1 A = Inr w2" "desc w2 A = Some cA"
      "Struct cA = Some SA"
    and "OuterStructOf h (fst (FindMember h cA SA m)) (snd (FindMember h cA SA m)) = Some SA"
  shows "(\<exists>w' fr fd cA' cD'.
            RegisterField (Suc (Suc k)) h w D m D = Some (Inr (w', Some fr))
            \<and> desc w' A = Some cA' \<and> map_of (Fields cA') m = Some fr
            \<and> desc w' D = Some cD' \<and> map_of (Fields cD') m = None
            \<and> field w' fr = Some fd \<and> OuterClass fd = A
            \<and> (map_of (Fields cA) m = None \<longrightarrow> QueryClass fd = D)
            \<and> (\<forall>fr0. map_of (Fields cA) m = Some fr0 \<longrightarrow> fr = fr0 \<and> field w fr0 = Some fd)
            \<and> fields_declared_here h w')
         \<and> (\<forall>v. reachable h v \<longrightarrow> fields_declared_here h v)"
proof
  show "\<exists>w' fr fd cA' cD'.
            RegisterField (Suc (Suc k)) h w D m D = Some (Inr (w', Some fr))
            \<and> desc w' A = Some cA' \<and> map_of (Fields cA') m = Some fr
            \<and> desc w' D = Some cD' \<and> map_of (Fields cD') m = None
            \<and> field w' fr = Some fd \<and> OuterClass fd = A
            \<and> (map_of (Fields cA) m = None \<longrightarrow> QueryClass fd = D)
            \<and> (\<forall>fr0. map_of (Fields cA) m = Some fr0 \<longrightarrow> fr = fr0 \<and> field w fr0 = Some fd)
            \<and> fields_declared_here h w'"
    using assms by (rule redirect_to_declaring)
  show "\<forall>v. reachable h v \<longrightarrow> fields_declared_here h v"
    by (simp add: reachable_inv)
qed

lemma reachable_worldC: "reachable host0 worldC"
  using reachable.start worldC_run by (rule reachable.by_RegisterReflectedType)

text \<open>
  Witness: \<^verbatim>\<open>Hp\<close> asked of class \<open>3\<close> (descriptor \<open>2\<close>) in the world the registry has
  made.  It is declared on class \<open>1\<close> (descriptor \<open>0\<close>), where it is registered with
  \<open>QueryClass = 2\<close> and \<open>OuterClass = 0\<close>.
\<close>

theorem RegisterField_redirects_to_declaring_class_witness:
  "reachable host0 worldC
   \<and> RegisterField (Suc (Suc 0)) host0 worldC 2 ''Hp'' 2 = Some (Inr (worldHp, Some 0))
   \<and> field worldHp 0 = Some \<lparr>QueryClass = 2, OuterClass = 0, FieldIndex = 1\<rparr>
   \<and> fields_declared_here host0 worldHp"
proof -
  let ?cD = "FClassDesc_init host0 3 ''UC'' [1, 0]"
  let ?cA = "FClassDesc_init host0 1 ''UA'' []"
  have dD: "desc worldC 2 = Some ?cD" and dA: "desc worldC 0 = Some ?cA"
    by (simp_all add: worldC_def desc_def deref_def)
  have sD: "Struct ?cD = Some 3" and sA: "Struct ?cA = Some 1"
    by (simp_all add: FClassDesc_init_def Let_def)
  have lD: "Load host0 worldC 2 = Inr worldC"
    using sD by (intro Load_loaded[OF dD]) simp
  have lA: "Load host0 worldC 0 = Inr worldC"
    using sA by (intro Load_loaded[OF dA]) simp
  have oD: "OuterStructOf host0 (fst (FindMember host0 ?cD 3 ''Hp'')) (snd (FindMember host0 ?cD 3 ''Hp'')) = Some 1"
    by (simp add: FindMember_def OuterStructOf_def FClassDesc_init_def Let_def)
  have oA: "OuterStructOf host0 (fst (FindMember host0 ?cA 1 ''Hp'')) (snd (FindMember host0 ?cA 1 ''Hp'')) = Some 1"
    by (simp add: FindMember_def OuterStructOf_def FClassDesc_init_def Let_def)
  have cl: "Classes worldC 1 = Some 0" by (simp add: worldC_def)
  have run: "RegisterField (Suc (Suc 0)) host0 worldC 2 ''Hp'' 2 = Some (Inr (worldHp, Some 0))"
    by (simp add: run_simps worldC_def worldHp_def)
  from RegisterField_redirects_to_declaring_class[OF reachable_worldC lD dD sD oD _ cl _ lA dA sA oA, of 0]
  obtain w' fr where "RegisterField (Suc (Suc 0)) host0 worldC 2 ''Hp'' 2 = Some (Inr (w', Some fr))"
    "fields_declared_here host0 w'"
    by auto
  with run have "fields_declared_here host0 worldHp" by simp
  moreover have "field worldHp 0 = Some \<lparr>QueryClass = 2, OuterClass = 0, FieldIndex = 1\<rparr>"
    by (simp add: worldHp_def field_def deref_def)
  ultimately show ?thesis using reachable_worldC run by simp
qed

text \<open>
  Counterexample to C1 as stated.  In the world the registry has made for the classes
  \<open>3\<close>, \<open>2\<close>, \<open>1\<close>, \<^verbatim>\<open>Hp\<close> is first asked of class \<open>1\<close> itself (descriptor \<open>0\<close>), which
  declares it.  Asked then of the derived class \<open>3\<close> (descriptor \<open>2\<close>) with
  \<open>QueryClass = 2\<close>, \<open>RegisterField\<close> returns the cached field descriptor \<open>0\<close>, whose
  \<open>QueryClass\<close> is \<open>0\<close> and not \<open>2\<close>.
\<close>

theorem RegisterField_query_class_counterexample:
  "RegisterReflectedType 5 host0 world0 3 = Some (worldC, 2)
   \<and> RegisterField (Suc 0) host0 worldC 0 ''Hp'' 0 = Some (Inr (worldHpA, Some 0))
   \<and> RegisterField (Suc (Suc 0)) host0 worldHpA 2 ''Hp'' 2 = Some (Inr (worldHpA, Some 0))
   \<and> map_option OuterClass (field worldHpA 0) = Some 0
   \<and> map_option QueryClass (field worldHpA 0) = Some 0
   \<and> map_option QueryClass (field worldHpA 0) \<noteq> Some 2"
proof -
  have "RegisterField (Suc 0) host0 worldC 0 ''Hp'' 0 = Some (Inr (worldHpA, Some 0))"
    by (simp add: run_simps worldC_def worldHpA_def)
  moreover have "RegisterField (Suc (Suc 0)) host0 worldHpA 2 ''Hp'' 2 = Some (Inr (worldHpA, Some 0))"
    by (simp add: run_simps worldHpA_def)
  moreover have "field worldHpA 0 = Some \<lparr>QueryClass = 0, OuterClass = 0, FieldIndex = 1\<rparr>"
    by (simp add: worldHpA_def field_def deref_def)
  ultimately show ?thesis using worldC_run by simp
qed

end
